theory Spec2Isabelle
  imports Complex_Main "HOL-Library.AList" "HOL-Library.Sublist"
begin

section \<open>Platform interfaces\<close>

text \<open>
  Both programs call the platform's WHATWG URL parser (\<^verbatim>\<open>new URL(s)\<close>) and read the
  fields \<^verbatim>\<open>hostname\<close>, \<^verbatim>\<open>pathname\<close> and \<^verbatim>\<open>searchParams\<close> of the result; the
  constructor throws on a string that is not an absolute URL. The parser is not part of
  the repository, so every function that calls it takes it as a parameter: \<open>None\<close> is the
  thrown \<^verbatim>\<open>TypeError\<close>. \<^verbatim>\<open>JSON.parse\<close> is taken as a parameter in the same way.

  JavaScript strings are modelled as \<^typ>\<open>string\<close>, one \<^typ>\<open>char\<close> per code unit; the
  model covers the strings whose code units are below 256, where \<^verbatim>\<open>length\<close>, \<^verbatim>\<open>slice\<close>
  and the regular expressions count as the source does. The two characters outside that
  range in the fixed text of the programs (a dash and an emoji) are written as the bytes
  of the UTF-8 file the programs write.
\<close>

record parsed_url =
  hostname :: string
  pathname :: string
  searchParams :: "(string \<times> string) list"

type_synonym url_parser = "string \<Rightarrow> parsed_url option"

text \<open>
  What the platform's parser returns on the strings used in the examples of this
  theory; a string outside the table stands for one the parser rejects, as it rejects
  \<^verbatim>\<open>not a url\<close> and every string that begins with a slash (no scheme, no base).
  The second to last row is an opaque path (the scheme \<^verbatim>\<open>blob\<close> is not special, the
  rest is kept as it is); the last row shows the braces percent-encoded in a path.
\<close>

definition example_URL :: url_parser where
  "example_URL = map_of
    [(''https://api.example.com/items/01234567-89ab-cdef-0123-456789abcdef/view'',
        \<lparr>hostname = ''api.example.com'',
         pathname = ''/items/01234567-89ab-cdef-0123-456789abcdef/view'',
         searchParams = []\<rparr>),
     (''https://api.example.com/users/48291/orders/3'',
        \<lparr>hostname = ''api.example.com'', pathname = ''/users/48291/orders/3'',
         searchParams = []\<rparr>),
     (''https://api.example.com/sync/1700000000000'',
        \<lparr>hostname = ''api.example.com'', pathname = ''/sync/1700000000000'',
         searchParams = []\<rparr>),
     (''https://api.example.com/users/7?expand=orders'',
        \<lparr>hostname = ''api.example.com'', pathname = ''/users/7'',
         searchParams = [(''expand'', ''orders'')]\<rparr>),
     (''blob:https://example.com/users/123'',
        \<lparr>hostname = [], pathname = ''https://example.com/users/123'',
         searchParams = []\<rparr>),
     (''https://example.com/users/{id}'',
        \<lparr>hostname = ''example.com'', pathname = ''/users/%7Bid%7D'',
         searchParams = []\<rparr>)]"

section \<open>Regular-expression replacement\<close>

text \<open>
  A regular expression is modelled by its matcher at the start of a string: the length
  of the match, if there is one. The argument is the rest of the input, so that a
  lookahead and \<^verbatim>\<open>$\<close> can be decided.
\<close>

type_synonym regex = "string \<Rightarrow> nat option"

text \<open>
  \<^verbatim>\<open>String.prototype.replace\<close> with a global regular expression and a replacement
  that has no \<^verbatim>\<open>$\<close> pattern: the input is scanned from the left; where the expression
  matches, the replacement is emitted and the scan goes on behind the match (one code
  unit further when the match is empty); elsewhere the code unit is copied.
\<close>

fun replace_all :: "regex \<Rightarrow> string \<Rightarrow> string \<Rightarrow> string" where
  "replace_all re r [] = (case re [] of None \<Rightarrow> [] | Some _ \<Rightarrow> r)"
| "replace_all re r (c # cs) =
     (case re (c # cs) of
        None \<Rightarrow> c # replace_all re r cs
      | Some 0 \<Rightarrow> r @ c # replace_all re r cs
      | Some (Suc k) \<Rightarrow> r @ replace_all re r (drop k cs))"

text \<open>\<^verbatim>\<open>\d\<close>, and \<^verbatim>\<open>[0-9a-f]\<close> under the flag \<^verbatim>\<open>i\<close>.\<close>

definition is_digit :: "char \<Rightarrow> bool" where
  "is_digit c = (c \<in> set ''0123456789'')"

definition is_hex :: "char \<Rightarrow> bool" where
  "is_hex c = (c \<in> set ''0123456789abcdefABCDEF'')"

definition is_dash :: "char \<Rightarrow> bool" where
  "is_dash c = (c = CHR ''-'')"

text \<open>A sequence of character classes, one code unit each.\<close>

fun match_slots :: "(char \<Rightarrow> bool) list \<Rightarrow> string \<Rightarrow> bool" where
  "match_slots [] s = True"
| "match_slots (p # ps) [] = False"
| "match_slots (p # ps) (c # cs) = (p c \<and> match_slots ps cs)"

text \<open>\<^verbatim>\<open>/[0-9a-f]{8}-[0-9a-f]{4}-[0-9a-f]{4}-[0-9a-f]{4}-[0-9a-f]{12}/gi\<close>\<close>

definition uuid_slots :: "(char \<Rightarrow> bool) list" where
  "uuid_slots =
     replicate 8 is_hex @ [is_dash] @ replicate 4 is_hex @ [is_dash] @
     replicate 4 is_hex @ [is_dash] @ replicate 4 is_hex @ [is_dash] @
     replicate 12 is_hex"

definition uuid_re :: regex where
  "uuid_re s = (if match_slots uuid_slots s then Some (length uuid_slots) else None)"

text \<open>The lookahead \<^verbatim>\<open>(?=\/|$)\<close>: the rest begins with a slash or is empty.\<close>

definition at_boundary :: "string \<Rightarrow> bool" where
  "at_boundary s = (case s of [] \<Rightarrow> True | c # _ \<Rightarrow> c = CHR ''/'')"

text \<open>
  \<^verbatim>\<open>/\/C{lo,hi}(?=\/|$)/\<close> for a character class \<open>C\<close> (\<open>hi = None\<close> for
  \<^verbatim>\<open>{lo,}\<close>): a slash, then the greedy quantifier takes as many code units of the class
  as it may and gives them back one at a time, down to \<open>lo\<close>, until the lookahead holds.
\<close>

definition seg_re :: "(char \<Rightarrow> bool) \<Rightarrow> nat \<Rightarrow> nat option \<Rightarrow> regex" where
  "seg_re cls lo hi s =
     (case s of
        [] \<Rightarrow> None
      | c # rest \<Rightarrow>
          if c \<noteq> CHR ''/'' then None
          else
            let n = length (takeWhile cls rest);
                most = (case hi of None \<Rightarrow> n | Some h \<Rightarrow> min n h)
            in map_option Suc (find (\<lambda>k. at_boundary (drop k rest)) (rev [lo..<Suc most])))"

definition hash_re :: regex where
  "hash_re = seg_re is_hex 8 (Some 64)"

definition id_re :: regex where
  "id_re = seg_re is_digit 2 None"

definition ts_re :: regex where
  "ts_re = seg_re is_digit 10 (Some 13)"

text \<open>
  Two notions for reasoning about the replacements: a regular expression matches at no
  position of a string, and the text of a path up to its first slash.
\<close>

fun no_match :: "regex \<Rightarrow> string \<Rightarrow> bool" where
  "no_match re [] = (re [] = None)"
| "no_match re (c # cs) = (re (c # cs) = None \<and> no_match re cs)"

definition first_seg :: "string \<Rightarrow> string" where
  "first_seg t = takeWhile (\<lambda>c. c \<noteq> CHR ''/'') t"

section \<open>Endpoint normalizer\<close>

text \<open>The four replacements of \<^verbatim>\<open>normalizePath\<close>, in the order of the source.\<close>

definition path_rules :: "string \<Rightarrow> string" where
  "path_rules p0 =
     (let p = replace_all uuid_re ''{uuid}'' p0;
          p = replace_all hash_re ''/{hash}'' p;
          p = replace_all id_re ''/{id}'' p;
          p = replace_all ts_re ''/{ts}'' p
      in p)"

definition normalizePath :: "url_parser \<Rightarrow> string \<Rightarrow> string" where
  "normalizePath URL urlStr =
     (case URL urlStr of
        None \<Rightarrow> urlStr
      | Some u \<Rightarrow> path_rules (pathname u))"

section \<open>Strings\<close>

text \<open>
  The string operations of the platform that the programs use: a number in a template
  literal (\<open>show_nat\<close>, \<open>show_int\<close>), \<^verbatim>\<open>Array.prototype.join\<close>,
  \<^verbatim>\<open>String.prototype.includes\<close>, \<^verbatim>\<open>split\<close> at a one-character separator,
  \<^verbatim>\<open>trim\<close>, \<^verbatim>\<open>toLowerCase\<close>, the truth value of a string that may be \<^verbatim>\<open>null\<close>,
  \<^verbatim>\<open>a || b\<close> on strings, and \<^verbatim>\<open>s.split(sep)[0]\<close> (\<open>split_first\<close>).
\<close>

definition digit_char :: "nat \<Rightarrow> char" where
  "digit_char d = ''0123456789'' ! d"

fun show_nat :: "nat \<Rightarrow> string" where
  "show_nat n = (if n < 10 then [digit_char n] else show_nat (n div 10) @ [digit_char (n mod 10)])"

definition show_int :: "int \<Rightarrow> string" where
  "show_int i = (if i < 0 then ''-'' @ show_nat (nat (- i)) else show_nat (nat i))"

definition newline :: string where
  "newline = [CHR 0x0A]"

fun join :: "string \<Rightarrow> string list \<Rightarrow> string" where
  "join sep [] = []"
| "join sep [x] = x"
| "join sep (x # y # ys) = x @ sep @ join sep (y # ys)"

fun str_includes :: "string \<Rightarrow> string \<Rightarrow> bool" where
  "str_includes [] sub = (sub = [])"
| "str_includes (c # cs) sub = (prefix sub (c # cs) \<or> str_includes cs sub)"

fun split_on :: "char \<Rightarrow> string \<Rightarrow> string list" where
  "split_on sep [] = [[]]"
| "split_on sep (c # cs) =
     (if c = sep then [] # split_on sep cs
      else (case split_on sep cs of [] \<Rightarrow> [[c]] | w # ws \<Rightarrow> (c # w) # ws))"

definition is_space :: "char \<Rightarrow> bool" where
  "is_space c = (of_char c \<in> set [9, 10, 11, 12, 13, 32, 160 :: nat])"

definition trim :: "string \<Rightarrow> string" where
  "trim s = rev (dropWhile is_space (rev (dropWhile is_space s)))"

definition lower_char :: "char \<Rightarrow> char" where
  "lower_char c =
     (let n = of_char c :: nat
      in if (65 \<le> n \<and> n \<le> 90) \<or> (192 \<le> n \<and> n \<le> 222 \<and> n \<noteq> 215)
         then char_of (n + 32) else c)"

definition toLowerCase :: "string \<Rightarrow> string" where
  "toLowerCase s = map lower_char s"

definition truthy :: "string option \<Rightarrow> bool" where
  "truthy b = (case b of None \<Rightarrow> False | Some s \<Rightarrow> s \<noteq> [])"


definition or_else :: "string option \<Rightarrow> string \<Rightarrow> string" where
  "or_else a b = (case a of None \<Rightarrow> b | Some s \<Rightarrow> if s = [] then b else s)"

definition split_first :: "char \<Rightarrow> string \<Rightarrow> string" where
  "split_first sep s = takeWhile (\<lambda>c. c \<noteq> sep) s"

definition apos :: string where "apos = [CHR 0x27]"
definition dquote :: string where "dquote = [CHR 0x22]"
definition backslash :: string where "backslash = [CHR 0x5C]"
definition backtick :: string where "backtick = [CHR 0x60]"

section \<open>JSON\<close>

text \<open>
  The values \<^verbatim>\<open>JSON.parse\<close> returns. An object is the list of its entries in the order
  of \<^verbatim>\<open>Object.entries\<close>; \<open>example_JSON\<close> is what the parser returns on the texts used
  in the examples, a text outside the table standing for one it rejects.
\<close>

datatype json =
    JNull
  | JBool bool
  | JNumber rat
  | JString string
  | JArray "json list"
  | JObject "(string \<times> json) list"

type_synonym json_parser = "string \<Rightarrow> json option"

definition example_JSON :: json_parser where
  \<open>example_JSON = map_of
    [(''{"a":1,"b":[1,2,3]}'',
        JObject [(''a'', JNumber 1), (''b'', JArray [JNumber 1, JNumber 2, JNumber 3])]),
     (''[1,2,3]'', JArray [JNumber 1, JNumber 2, JNumber 3]),
     ('' [1,2,3]'', JArray [JNumber 1, JNumber 2, JNumber 3]),
     (''{"ok":true}'', JObject [(''ok'', JBool True)])]\<close>

section \<open>Captured records\<close>

text \<open>
  A request record, as the capture program assembles it and the generator reads it back
  from the session file, and the session file itself. The field \<^verbatim>\<open>method\<close> of the
  source is \<open>http_method\<close> here; \<open>None\<close> is \<^verbatim>\<open>null\<close>.
\<close>

record entry =
  timestamp :: string
  http_method :: string
  url :: string
  requestHeaders :: "(string \<times> string) list"
  requestBody :: "string option"
  resourceType :: string
  responseStatus :: "nat option"
  responseHeaders :: "(string \<times> string) list"
  responseBody :: "string option"

record capture =
  capturedAt :: string
  duration :: "int option"
  cdpPort :: "int option"
  domain :: string
  requests :: "entry list"

section \<open>Schema inference\<close>

function describeType :: "json \<Rightarrow> nat \<Rightarrow> nat \<Rightarrow> string" where
  "describeType JNull depth maxDepth = ''null''"
| "describeType (JArray []) depth maxDepth = ''[]''"
| "describeType (JArray (v # vs)) depth maxDepth =
     (if depth \<ge> maxDepth then ''[...'' @ show_nat (length (v # vs)) @ '' items]''
      else ''['' @ describeType v (depth + 1) maxDepth @ ''] ('' @
           show_nat (length (v # vs)) @ '' items)'')"
| "describeType (JObject val) depth maxDepth =
     (if depth \<ge> maxDepth then ''{...'' @ show_nat (length val) @ '' keys}''
      else
        let entries = take 15 val;
            fields = map (\<lambda>(k, v). ''  '' @ k @ '': '' @ describeType v (depth + 1) maxDepth)
                       entries;
            extra = (if length val > 15
                     then newline @ ''  ...'' @ show_nat (length val - 15) @ '' more keys''
                     else [])
        in ''{'' @ newline @ join newline fields @ extra @ newline @ ''}'')"
| "describeType (JString val) depth maxDepth =
     (if length val > 80 then ''string ('' @ show_nat (length val) @ '' chars)''
      else dquote @ val @ dquote)"
| "describeType (JBool b) depth maxDepth = ''boolean''"
| "describeType (JNumber n) depth maxDepth = ''number''"
  by pat_completeness auto
termination
proof (relation "measure (\<lambda>(v, depth, maxDepth). size v)", goal_cases)
  case (3 val depth maxDepth entries x k v)
  then have "(k, v) \<in> set val"
    by (auto dest: in_set_takeD)
  then have "size v < size_list (size_prod (\<lambda>x. 0) size) val"
    by (rule size_list_estimation) simp
  then show ?case
    by simp
qed simp_all

definition inferSchema :: "json_parser \<Rightarrow> string \<Rightarrow> nat \<Rightarrow> string option" where
  "inferSchema JSON_parse jsonStr maxDepth =
     (case JSON_parse jsonStr of
        None \<Rightarrow> None
      | Some obj \<Rightarrow> Some (describeType obj 0 maxDepth))"

section \<open>Auth pattern detection\<close>

text \<open>
  A \<^verbatim>\<open>Map\<close> from names to counts is a list of pairs in insertion order:
  \<open>AList.update\<close> overwrites the value of a key in place and appends a new key, as
  \<^verbatim>\<open>Map.prototype.set\<close> does. \<^verbatim>\<open>Array.prototype.sort\<close> is stable, as \<open>sort_key\<close> is.
\<close>

type_synonym counts = "(string \<times> nat) list"

definition map_incr :: "string \<Rightarrow> counts \<Rightarrow> counts" where
  "map_incr k m = AList.update k ((case map_of m k of None \<Rightarrow> 0 | Some c \<Rightarrow> c) + 1) m"

definition header_step :: "string \<times> string \<Rightarrow> counts \<times> counts \<Rightarrow> counts \<times> counts" where
  "header_step kv acc =
     (case kv of (key, value) \<Rightarrow> case acc of (authHeaders, cookieNames) \<Rightarrow>
        let lower = toLowerCase key;
            authHeaders =
              (if lower = ''authorization'' then
                 let scheme = or_else (Some (split_first CHR '' '' value)) ''unknown'';
                     label = ''Authorization: '' @ scheme @ '' ...''
                 in map_incr label authHeaders
               else authHeaders);
            authHeaders =
              (if str_includes lower ''csrf'' \<or> str_includes lower ''token'' \<or>
                  str_includes lower ''x-api''
               then map_incr key authHeaders else authHeaders);
            cookieNames =
              (if lower = ''cookie'' then
                 let cookies = filter (\<lambda>n. n \<noteq> [])
                       (map (\<lambda>c. split_first CHR ''='' (trim c)) (split_on CHR '';'' value))
                 in fold map_incr cookies cookieNames
               else cookieNames)
        in (authHeaders, cookieNames))"

definition detectAuthPatterns :: "entry list \<Rightarrow> counts \<times> counts" where
  "detectAuthPatterns reqs =
     fold (\<lambda>req acc. fold header_step (requestHeaders req) acc) reqs ([], [])"

definition threshold :: "entry list \<Rightarrow> rat" where
  "threshold reqs = max 1 (of_nat (length reqs) * (1 / 2))"

definition consistentAuthHeaders :: "entry list \<Rightarrow> counts" where
  "consistentAuthHeaders reqs =
     sort_key (\<lambda>(name, count). - int count)
       (filter (\<lambda>(name, count). of_nat count \<ge> threshold reqs)
          (fst (detectAuthPatterns reqs)))"

definition consistentCookies :: "entry list \<Rightarrow> string list" where
  "consistentCookies reqs =
     map fst
       (sort_key (\<lambda>(name, count). - int count)
          (filter (\<lambda>(name, count). of_nat count \<ge> threshold reqs)
             (snd (detectAuthPatterns reqs))))"

text \<open>
  The occurrences the detector counts for cookies: the names in every \<^verbatim>\<open>Cookie\<close>
  header of every request, a name as often as it occurs.
\<close>

definition header_cookies :: "string \<times> string \<Rightarrow> string list" where
  "header_cookies kv =
     (case kv of (key, value) \<Rightarrow>
        if toLowerCase key = ''cookie''
        then filter (\<lambda>n. n \<noteq> [])
               (map (\<lambda>c. split_first CHR ''='' (trim c)) (split_on CHR '';'' value))
        else [])"

definition cookie_occurrences :: "entry list \<Rightarrow> string list" where
  "cookie_occurrences reqs = concat (map (\<lambda>req. concat (map header_cookies (requestHeaders req))) reqs)"

text \<open>
  The occurrences the detector counts for headers: an \<^verbatim>\<open>Authorization\<close> header
  occurs as the label of its scheme, and a header whose name in lower case contains
  \<^verbatim>\<open>csrf\<close>, \<^verbatim>\<open>token\<close> or \<^verbatim>\<open>x-api\<close> occurs under its name; no other header is
  counted.
\<close>

definition auth_label :: "string \<Rightarrow> string" where
  "auth_label value =
     ''Authorization: '' @ or_else (Some (split_first CHR '' '' value)) ''unknown'' @ '' ...''"

definition is_auth_name :: "string \<Rightarrow> bool" where
  "is_auth_name key =
     (str_includes (toLowerCase key) ''csrf'' \<or> str_includes (toLowerCase key) ''token'' \<or>
      str_includes (toLowerCase key) ''x-api'')"

definition header_labels :: "string \<times> string \<Rightarrow> string list" where
  "header_labels kv =
     (case kv of (key, value) \<Rightarrow>
        (if toLowerCase key = ''authorization'' then [auth_label value] else []) @
        (if is_auth_name key then [key] else []))"

definition auth_occurrences :: "entry list \<Rightarrow> string list" where
  "auth_occurrences reqs = concat (map header_labels (concat (map requestHeaders reqs)))"

section \<open>Endpoints\<close>

definition endpointKey :: "url_parser \<Rightarrow> string \<Rightarrow> string \<Rightarrow> string" where
  "endpointKey URL m u = m @ '' '' @ normalizePath URL u"

record endpoint =
  ep_method :: string
  normalizedPath :: string
  ep_requests :: "entry list"
  queryParams :: "string list"

definition set_add :: "string \<Rightarrow> string list \<Rightarrow> string list" where
  "set_add k ks = (if k \<in> set ks then ks else ks @ [k])"

definition group_step ::
  "url_parser \<Rightarrow> entry \<Rightarrow> (string \<times> endpoint) list \<Rightarrow> (string \<times> endpoint) list" where
  "group_step URL req endpoints =
     (let key = endpointKey URL (http_method req) (url req);
          endpoints =
            (if map_of endpoints key = None
             then endpoints @
               [(key, \<lparr>ep_method = http_method req, normalizedPath = normalizePath URL (url req),
                       ep_requests = [], queryParams = []\<rparr>)]
             else endpoints);
          names = (case URL (url req) of None \<Rightarrow> [] | Some u \<Rightarrow> map fst (searchParams u))
      in AList.map_entry key
           (\<lambda>ep. ep\<lparr>ep_requests := ep_requests ep @ [req],
                     queryParams := fold set_add names (queryParams ep)\<rparr>)
           endpoints)"

definition sortedEndpoints :: "url_parser \<Rightarrow> entry list \<Rightarrow> endpoint list" where
  "sortedEndpoints URL reqs =
     sort_key (\<lambda>ep. - int (length (ep_requests ep))) (map snd (fold (group_step URL) reqs []))"

section \<open>Rendering\<close>

text \<open>
  The lines \<^verbatim>\<open>main\<close> pushes, block by block in the order of the source, and the
  document they are joined to. The clock is read once, for the date of the title line,
  and is a parameter (\<open>nowISO\<close>, the result of \<^verbatim>\<open>new Date().toISOString()\<close>).
  \<open>representative_of\<close> is \<open>None\<close> on an endpoint without requests, where the source
  would read a field of \<^verbatim>\<open>undefined\<close> and throw.
\<close>

definition representative_of :: "entry list \<Rightarrow> entry option" where
  "representative_of reqs =
     (case find (\<lambda>r. truthy (responseBody r) \<and>
                      (case responseStatus r of None \<Rightarrow> False | Some st \<Rightarrow> 200 \<le> st \<and> st < 400))
             reqs of
        Some r \<Rightarrow> Some r
      | None \<Rightarrow> (case reqs of [] \<Rightarrow> None | r # _ \<Rightarrow> Some r))"

text \<open>An object whose keys are status codes: enumerated in ascending order of the key.\<close>

fun status_incr :: "nat \<Rightarrow> (nat \<times> nat) list \<Rightarrow> (nat \<times> nat) list" where
  "status_incr s [] = [(s, 1)]"
| "status_incr s ((k, c) # kcs) =
     (if s = k then (k, c + 1) # kcs
      else if s < k then (s, 1) # (k, c) # kcs
      else (k, c) # status_incr s kcs)"

definition statusCounts :: "entry list \<Rightarrow> (nat \<times> nat) list" where
  "statusCounts reqs =
     fold (\<lambda>r. status_incr (case responseStatus r of None \<Rightarrow> 0 | Some st \<Rightarrow> st)) reqs []"

definition skipHeaders :: "string list" where
  "skipHeaders = [''cookie'', ''host'', ''user-agent'', ''accept'', ''accept-language'',
      ''accept-encoding'', ''connection'', ''referer'', ''sec-ch-ua'', ''sec-ch-ua-mobile'',
      ''sec-ch-ua-platform'', ''sec-fetch-dest'', ''sec-fetch-mode'', ''sec-fetch-site'',
      ''origin'', ''pragma'', ''cache-control'', ''content-length'', ''if-none-match'',
      ''if-modified-since'']"

definition curlParts :: "entry \<Rightarrow> string list" where
  "curlParts representative =
     (let headers = requestHeaders representative;
          notable = map (\<lambda>(key, value).
                      let displayVal = (if length value > 80 then take 80 value @ ''...'' else value)
                      in ''  -H '' @ apos @ key @ '': '' @ displayVal @ apos)
                    (filter (\<lambda>(key, value). toLowerCase key \<notin> set skipHeaders) headers);
          body = (case requestBody representative of
                    None \<Rightarrow> []
                  | Some b \<Rightarrow>
                      if b = [] then []
                      else
                        let contentType =
                              or_else (map_of headers ''Content-Type'')
                                (or_else (map_of headers ''content-type'') [])
                        in if str_includes contentType ''json''
                           then [''  -H '' @ apos @ ''Content-Type: application/json'' @ apos,
                                 ''  -d '' @ apos @ take 500 b @ apos]
                           else [''  -d '' @ apos @ take 500 b @ apos])
      in [''curl -s '' @ apos @ url representative @ apos,
          ''  -H '' @ apos @ ''Cookie: $COOKIES'' @ apos] @ notable @ body)"

definition request_schema_block :: "json_parser \<Rightarrow> string \<Rightarrow> entry \<Rightarrow> string list" where
  "request_schema_block JSON_parse ep_m representative =
     (case requestBody representative of
        None \<Rightarrow> []
      | Some b \<Rightarrow>
          if b \<noteq> [] \<and> ep_m \<in> set [''POST'', ''PUT'', ''PATCH''] then
            (case inferSchema JSON_parse b 2 of
               None \<Rightarrow> []
             | Some schema \<Rightarrow>
                 if schema = [] then []
                 else [''**Request body schema:**'', ''```'', schema, ''```'', []])
          else [])"

definition response_schema_block :: "json_parser \<Rightarrow> entry \<Rightarrow> string list" where
  "response_schema_block JSON_parse representative =
     (case responseBody representative of
        None \<Rightarrow> []
      | Some b \<Rightarrow>
          if b \<noteq> [] \<and> \<not> prefix ''['' b then
            (case inferSchema JSON_parse b 2 of
               None \<Rightarrow> []
             | Some schema \<Rightarrow>
                 if schema = [] then []
                 else [''**Response schema:**'', ''```'', schema, ''```'', []])
          else [])"

definition endpoint_section :: "json_parser \<Rightarrow> endpoint \<Rightarrow> string list option" where
  "endpoint_section JSON_parse ep =
     (let queryStr = (if queryParams ep \<noteq> []
                      then ''?'' @ join ''&'' (map (\<lambda>k. k @ ''={'' @ k @ ''}'') (queryParams ep))
                      else [])
      in case representative_of (ep_requests ep) of
           None \<Rightarrow> None
         | Some representative \<Rightarrow> Some
            ([''### '' @ ep_method ep @ '' '' @ normalizedPath ep @ queryStr @ ''  (observed '' @
                show_nat (length (ep_requests ep)) @ ''x)'',
              [],
              ''**Example URL:** '' @ backtick @ url representative @ backtick,
              [],
              ''**Status codes:** '' @
                join '', '' (map (\<lambda>(s, c). show_nat s @ '' ('' @ show_nat c @ ''x)'')
                               (statusCounts (ep_requests ep))),
              [],
              ''```bash'',
              join ('' '' @ backslash @ newline) (curlParts representative),
              ''```'',
              []] @
             request_schema_block JSON_parse (ep_method ep) representative @
             response_schema_block JSON_parse representative))"

record cli =
  DOMAIN :: "string option"
  SKILL_NAME :: "string option"

definition domainPrefix :: "string \<Rightarrow> string" where
  "domainPrefix d =
     (let stripped =
            (if suffix ''.com'' d \<or> suffix ''.net'' d \<or> suffix ''.org'' d
             then take (length d - 4) d
             else if suffix ''.io'' d then take (length d - 3) d
             else d)
      in map (\<lambda>c. if c = CHR ''.'' then CHR ''-'' else c) stripped)"

definition show_or :: "int option \<Rightarrow> string \<Rightarrow> string" where
  "show_or n dflt = (case n of None \<Rightarrow> dflt | Some i \<Rightarrow> if i = 0 then dflt else show_int i)"

definition header_lines :: "string \<Rightarrow> string \<Rightarrow> string \<Rightarrow> capture \<Rightarrow> string list" where
  "header_lines skillName dmn now cap =
     [''---'',
      ''name: '' @ skillName,
      ''description: '' @ dquote @ dmn @ '' internal API '' @ [CHR 0xE2, CHR 0x80, CHR 0x94] @
        '' learned endpoints for direct curl access. Use instead of browser for repeat tasks.'' @
        dquote,
      ''metadata: {'' @ dquote @ ''openclaw'' @ dquote @ '':{'' @ dquote @ ''emoji'' @ dquote @
        '':'' @ dquote @ [CHR 0xF0, CHR 0x9F, CHR 0x94, CHR 0x8C] @ dquote @ ''}}'',
      ''---'',
      [],
      ''# '' @ dmn @ '' API (learned '' @ now @ '')'',
      [],
      ''**WARNING:** Undocumented internal APIs learned by traffic capture. May change without notice.'',
      ''Captured from '' @ show_nat (length (requests cap)) @ '' API calls over '' @
        show_or (duration cap) ''?'' @ ''s.'',
      []]"

definition auth_lines :: "string \<Rightarrow> capture \<Rightarrow> string list" where
  "auth_lines dmn cap =
     [''## Authentication'',
      [],
      ''Cookie-based. Extract fresh cookies before each session:'',
      ''```bash'',
      ''/opt/OpenClaw/scripts/extract-cookies.js --domain '' @ dmn @ '' --port '' @
        show_or (cdpPort cap) ''9222'',
      ''```'',
      []] @
     (if consistentAuthHeaders (requests cap) \<noteq> []
      then [''### Required headers'', ''```''] @
           map fst (consistentAuthHeaders (requests cap)) @
           [''Cookie: <output from extract-cookies.js>'', ''```'', []]
      else [''### Required headers'', ''```'',
            ''Cookie: <output from extract-cookies.js>'', ''```'', []]) @
     (if consistentCookies (requests cap) \<noteq> []
      then [''### Key cookies (present in >50% of requests)'',
            backtick @ join (backtick @ '', '' @ backtick) (take 20 (consistentCookies (requests cap))) @
              backtick,
            []]
      else [])"

definition fallback_lines :: "string \<Rightarrow> string \<Rightarrow> capture \<Rightarrow> string list" where
  "fallback_lines skillName dmn cap =
     [''## Fallback'',
      [],
      ''If API calls return 401/403:'',
      ''1. Re-extract cookies using the command above'',
      ''2. If still failing, the site may have changed its auth mechanism'',
      ''3. Fall back to using the '' @ backtick @ ''browser'' @ backtick @ '' tool'',
      ''4. Report to Gannon that the API skill needs re-capture'',
      [],
      ''## Re-capture'',
      [],
      ''If endpoints have changed or new endpoints are needed:'',
      ''```bash'',
      ''/opt/OpenClaw/scripts/capture-api.js --port '' @ show_or (cdpPort cap) ''9222'' @
        '' --duration 300'',
      ''/opt/OpenClaw/scripts/generate-api-skill.js --domain '' @ dmn @ '' --name '' @ skillName,
      ''```'']"

datatype gen_error = EmptyCapture | TypeError

definition skillContent ::
  "url_parser \<Rightarrow> json_parser \<Rightarrow> cli \<Rightarrow> string \<Rightarrow> capture \<Rightarrow> gen_error + string" where
  "skillContent URL JSON_parse args nowISO cap =
     (let dmn = or_else (DOMAIN args) (domain cap)
      in if requests cap = [] then Inl EmptyCapture
         else
           let skillName = or_else (SKILL_NAME args) (''api-'' @ domainPrefix dmn);
               now = split_first CHR ''T'' nowISO
           in case those (map (endpoint_section JSON_parse) (sortedEndpoints URL (requests cap))) of
                None \<Rightarrow> Inl TypeError
              | Some sections \<Rightarrow>
                  Inr (join newline
                         (header_lines skillName dmn now cap @
                          auth_lines dmn cap @
                          [''## Endpoints'', []] @
                          concat sections @
                          fallback_lines skillName dmn cap) @ newline))"

section \<open>Capture: configuration and filters\<close>

record config =
  CDP_PORT :: "int option"
  DURATION :: "int option"
  CAPTURES_DIR :: string
  REDACT :: bool

definition NOISE_DOMAINS :: "string list" where
  "NOISE_DOMAINS =
    [''google-analytics.com'', ''www.google-analytics.com'', ''analytics.google.com'',
     ''googletagmanager.com'', ''www.googletagmanager.com'',
     ''googlesyndication.com'', ''pagead2.googlesyndication.com'',
     ''doubleclick.net'', ''ad.doubleclick.net'',
     ''google.com'', ''www.google.com'',
     ''facebook.com'', ''www.facebook.com'', ''connect.facebook.net'',
     ''facebook.net'', ''www.facebook.net'',
     ''stripe.com'', ''js.stripe.com'', ''api.stripe.com'', ''m.stripe.com'',
     ''sentry.io'', ''sentry-cdn.com'',
     ''hotjar.com'', ''static.hotjar.com'', ''script.hotjar.com'',
     ''segment.io'', ''api.segment.io'', ''cdn.segment.com'',
     ''datadome.co'', ''api-js.datadome.co'',
     ''recaptcha.net'', ''www.recaptcha.net'',
     ''gstatic.com'', ''www.gstatic.com'',
     ''newrelic.com'', ''bam.nr-data.net'', ''js-agent.newrelic.com'',
     ''fullstory.com'', ''rs.fullstory.com'',
     ''optimizely.com'', ''cdn.optimizely.com'',
     ''quantserve.com'', ''pixel.quantserve.com'',
     ''branch.io'', ''api.branch.io'',
     ''braze.com'', ''sdk.iad-01.braze.com'',
     ''amplitude.com'', ''api.amplitude.com'',
     ''mixpanel.com'', ''api.mixpanel.com'',
     ''intercom.io'', ''widget.intercom.io'',
     ''clarity.ms'', ''www.clarity.ms'',
     ''mouseflow.com'',
     ''crazyegg.com'',
     ''tiktok.com'', ''analytics.tiktok.com'',
     ''pinterest.com'', ''ct.pinterest.com'',
     ''snapchat.com'', ''tr.snapchat.com'']"

fun regex_test :: "regex \<Rightarrow> string \<Rightarrow> bool" where
  "regex_test re [] = (re [] \<noteq> None)"
| "regex_test re (c # cs) = (re (c # cs) \<noteq> None \<or> regex_test re cs)"

text \<open>An alternation of literal words, matched without regard to case.\<close>

definition words_re :: "string list \<Rightarrow> regex" where
  "words_re ws s = map_option length (find (\<lambda>w. prefix w (toLowerCase s)) ws)"

text \<open>\<^verbatim>\<open>/\.(js|css|png|jpg|jpeg|gif|svg|ico|woff|woff2|ttf|eot|map|webp|avif)(\?|$)/i\<close>\<close>

definition STATIC_EXTENSIONS :: regex where
  "STATIC_EXTENSIONS s =
     (case s of
        [] \<Rightarrow> None
      | c # rest \<Rightarrow>
          if c \<noteq> CHR ''.'' then None
          else map_option (\<lambda>w. Suc (length w))
                 (find (\<lambda>w. prefix w (toLowerCase rest) \<and>
                             (case drop (length w) rest of [] \<Rightarrow> True | d # _ \<Rightarrow> d = CHR ''?''))
                    [''js'', ''css'', ''png'', ''jpg'', ''jpeg'', ''gif'', ''svg'', ''ico'', ''woff'',
                     ''woff2'', ''ttf'', ''eot'', ''map'', ''webp'', ''avif'']))"

text \<open>
  \<^verbatim>\<open>/password|passwd|card_?number|card_?num|cvv|cvc|ssn|social_?security|secret_?key|private_?key/i\<close>,
  each optional underscore written out as two words.
\<close>

definition SENSITIVE_PATTERNS :: regex where
  "SENSITIVE_PATTERNS =
     words_re [''password'', ''passwd'', ''card_number'', ''cardnumber'', ''card_num'', ''cardnum'',
       ''cvv'', ''cvc'', ''ssn'', ''social_security'', ''socialsecurity'', ''secret_key'',
       ''secretkey'', ''private_key'', ''privatekey'']"

definition isNoiseDomain :: "url_parser \<Rightarrow> string \<Rightarrow> bool" where
  "isNoiseDomain URL u =
     (case URL u of
        None \<Rightarrow> False
      | Some p \<Rightarrow>
          if hostname p \<in> set NOISE_DOMAINS then True
          else
            let parts = split_on CHR ''.'' (hostname p)
            in list_ex (\<lambda>i. join ''.'' (drop i parts) \<in> set NOISE_DOMAINS)
                 [1..<length parts - 1])"

definition isStaticAsset :: "url_parser \<Rightarrow> string \<Rightarrow> bool" where
  "isStaticAsset URL u =
     (case URL u of
        None \<Rightarrow> False
      | Some p \<Rightarrow> regex_test STATIC_EXTENSIONS (pathname p))"

definition getDomain :: "url_parser \<Rightarrow> string \<Rightarrow> string" where
  "getDomain URL u =
     (case URL u of
        None \<Rightarrow> ''unknown''
      | Some p \<Rightarrow>
          let parts = split_on CHR ''.'' (hostname p)
          in if length parts > 2 then join ''.'' (drop (length parts - 2) parts)
             else hostname p)"

definition redacted :: string where
  "redacted = ''[REDACTED '' @ [CHR 0xE2, CHR 0x80, CHR 0x94] @ '' sensitive data detected]''"

definition redactBody :: "config \<Rightarrow> string option \<Rightarrow> string option" where
  "redactBody cfg body =
     (case body of
        None \<Rightarrow> body
      | Some b \<Rightarrow>
          if b = [] \<or> \<not> REDACT cfg then body
          else if regex_test SENSITIVE_PATTERNS b then Some redacted
          else body)"

definition MAX_BODY_SIZE :: nat where
  "MAX_BODY_SIZE = 10 * 1024"

definition truncateBody :: "string option \<Rightarrow> string option" where
  "truncateBody body =
     (case body of
        None \<Rightarrow> body
      | Some b \<Rightarrow>
          if b = [] then body
          else if length b > MAX_BODY_SIZE
          then Some (take MAX_BODY_SIZE b @ newline @ ''...[truncated at '' @
                  show_nat MAX_BODY_SIZE @ '' bytes, total '' @ show_nat (length b) @ '']'')
          else body)"

text \<open>\<^verbatim>\<open>a || null\<close> for a string that may be missing.\<close>

definition or_null :: "string option \<Rightarrow> string option" where
  "or_null a = (if truthy a then a else None)"

section \<open>Capture: the correlator\<close>

text \<open>
  The capture program as a transition system on the state its closures share: the
  in-flight map \<open>pendingRequests\<close> and the store \<open>capturedByDomain\<close> (both a
  \<^verbatim>\<open>Map\<close>, a list of pairs in insertion order), the counter of \<^verbatim>\<open>cdpSend\<close>, the
  outstanding \<^verbatim>\<open>Network.getResponseBody\<close> calls with the entry each callback holds
  (\<open>bodyFetches\<close>), the flag \<open>shuttingDown\<close>, the files written so far and whether
  \<^verbatim>\<open>process.exit\<close> has been called. An event is what the event loop runs next: the
  handler of a notification on a socket (with the clock's reading), the settlement of a
  body fetch (resolved with \<^verbatim>\<open>result.body\<close>, or rejected, which includes the timeout
  of ten seconds), the duration timer, or a signal; a trigger of the shutdown carries the
  readings of the clock during the call. Logging, the sockets and the creation of
  directories are left out.
\<close>

record request_sent =
  rs_requestId :: string
  rs_url :: string
  rs_method :: string
  rs_headers :: "(string \<times> string) list option"
  rs_postData :: "string option"
  rs_type :: "string option"
  rs_resourceType :: "string option"

datatype message =
    RequestWillBeSent request_sent
  | ResponseReceived string nat "(string \<times> string) list option"
  | LoadingFinished string
  | LoadingFailed string "string option"
  | OtherMessage

datatype event =
    WsMessage string message
  | BodyResolved nat "string option"
  | BodyRejected nat
  | TimerFired "nat \<Rightarrow> string"
  | SIGINT "nat \<Rightarrow> string"
  | SIGTERM "nat \<Rightarrow> string"

record cstate =
  pendingRequests :: "(string \<times> entry) list"
  capturedByDomain :: "(string \<times> entry list) list"
  totalCaptured :: nat
  cdp_id :: nat
  bodyFetches :: "(nat \<times> entry) list"
  shuttingDown :: bool
  written :: "(string \<times> capture) list"
  exited :: bool

definition storeEntry :: "url_parser \<Rightarrow> entry \<Rightarrow> cstate \<Rightarrow> cstate" where
  "storeEntry URL e s =
     (let dmn = getDomain URL (url e);
          cbd = capturedByDomain s;
          cbd = (if map_of cbd dmn = None then cbd @ [(dmn, [])] else cbd);
          cbd = AList.map_entry dmn (\<lambda>es. es @ [e]) cbd
      in s\<lparr>capturedByDomain := cbd, totalCaptured := totalCaptured s + 1\<rparr>)"

definition on_message :: "config \<Rightarrow> url_parser \<Rightarrow> string \<Rightarrow> message \<Rightarrow> cstate \<Rightarrow> cstate" where
  "on_message cfg URL now msg s =
     (case msg of
        OtherMessage \<Rightarrow> s
      | RequestWillBeSent p \<Rightarrow>
          let type = or_else (rs_type p) (or_else (rs_resourceType p) [])
          in if type \<noteq> ''XHR'' \<and> type \<noteq> ''Fetch'' then s
             else if isNoiseDomain URL (rs_url p) then s
             else if isStaticAsset URL (rs_url p) then s
             else s\<lparr>pendingRequests :=
                      AList.update (rs_requestId p)
                        \<lparr>timestamp = now,
                         http_method = rs_method p,
                         url = rs_url p,
                         requestHeaders = (case rs_headers p of None \<Rightarrow> [] | Some h \<Rightarrow> h),
                         requestBody = redactBody cfg (or_null (rs_postData p)),
                         resourceType = type,
                         responseStatus = None,
                         responseHeaders = [],
                         responseBody = None\<rparr>
                        (pendingRequests s)\<rparr>
      | ResponseReceived rid status headers \<Rightarrow>
          (case map_of (pendingRequests s) rid of
             None \<Rightarrow> s
           | Some e \<Rightarrow>
               s\<lparr>pendingRequests :=
                    AList.update rid
                      (e\<lparr>responseStatus := Some status,
                         responseHeaders := (case headers of None \<Rightarrow> [] | Some h \<Rightarrow> h)\<rparr>)
                      (pendingRequests s)\<rparr>)
      | LoadingFinished rid \<Rightarrow>
          (case map_of (pendingRequests s) rid of
             None \<Rightarrow> s
           | Some e \<Rightarrow>
               s\<lparr>pendingRequests := AList.delete rid (pendingRequests s),
                  cdp_id := cdp_id s + 1,
                  bodyFetches := bodyFetches s @ [(cdp_id s + 1, e)]\<rparr>)
      | LoadingFailed rid errorText \<Rightarrow>
          (case map_of (pendingRequests s) rid of
             None \<Rightarrow> s
           | Some e \<Rightarrow>
               storeEntry URL
                 (e\<lparr>responseStatus := Some 0,
                    responseBody := Some (''[failed: '' @ or_else errorText ''unknown'' @ '']'')\<rparr>)
                 (s\<lparr>pendingRequests := AList.delete rid (pendingRequests s)\<rparr>)))"

definition on_body :: "url_parser \<Rightarrow> nat \<Rightarrow> string option option \<Rightarrow> cstate \<Rightarrow> cstate" where
  "on_body URL call result s =
     (case map_of (bodyFetches s) call of
        None \<Rightarrow> s
      | Some e \<Rightarrow>
          let s = s\<lparr>bodyFetches := AList.delete call (bodyFetches s)\<rparr>
          in case result of
               Some body \<Rightarrow> storeEntry URL (e\<lparr>responseBody := truncateBody (or_null body)\<rparr>) s
             | None \<Rightarrow> storeEntry URL e s)"

definition file_stamp :: "string \<Rightarrow> string" where
  "file_stamp isoStr =
     (let s = map (\<lambda>c. if c = CHR '':'' then CHR ''-'' else c) isoStr
      in case dropWhile (\<lambda>c. c \<noteq> CHR ''.'') s of
           [] \<Rightarrow> s
         | [d] \<Rightarrow> s
         | d # _ # _ \<Rightarrow> takeWhile (\<lambda>c. c \<noteq> CHR ''.'') s)"

text \<open>
  \<^verbatim>\<open>path.join\<close> of the platform on a POSIX system: the arguments that are not empty
  are joined with a slash and the result is normalized, which drops the empty segments and
  the segments \<^verbatim>\<open>.\<close>, resolves a segment \<^verbatim>\<open>..\<close> against the segment before it, and
  keeps a leading and a trailing slash.
\<close>

fun normalizeString :: "bool \<Rightarrow> string list \<Rightarrow> string list \<Rightarrow> string list" where
  "normalizeString allowAboveRoot res [] = res"
| "normalizeString allowAboveRoot res (seg # segs) =
     (if seg = [] \<or> seg = ''.'' then normalizeString allowAboveRoot res segs
      else if seg = ''..'' then
        (if res \<noteq> [] \<and> last res \<noteq> ''..''
         then normalizeString allowAboveRoot (butlast res) segs
         else if allowAboveRoot then normalizeString allowAboveRoot (res @ [''..'']) segs
         else normalizeString allowAboveRoot res segs)
      else normalizeString allowAboveRoot (res @ [seg]) segs)"

definition path_normalize :: "string \<Rightarrow> string" where
  "path_normalize p =
     (if p = [] then ''.''
      else
        let isAbsolute = (hd p = CHR ''/'');
            trailingSeparator = (last p = CHR ''/'');
            body = join ''/'' (normalizeString (\<not> isAbsolute) [] (split_on CHR ''/'' p))
        in if body = []
           then (if isAbsolute then ''/'' else if trailingSeparator then ''./'' else ''.'')
           else (if isAbsolute then ''/'' else []) @ body @
                (if trailingSeparator then ''/'' else []))"

definition path_join :: "string \<Rightarrow> string \<Rightarrow> string" where
  "path_join a b =
     (let joined = join ''/'' (filter (\<lambda>arg. arg \<noteq> []) [a, b])
      in if joined = [] then ''.'' else path_normalize joined)"

definition shutdown :: "config \<Rightarrow> url_parser \<Rightarrow> (nat \<Rightarrow> string) \<Rightarrow> cstate \<Rightarrow> cstate" where
  "shutdown cfg URL clock s =
     (if shuttingDown s then s
      else
        let s = s\<lparr>shuttingDown := True\<rparr>;
            s = fold (\<lambda>(rid, e). storeEntry URL e) (pendingRequests s) s;
            s = s\<lparr>pendingRequests := []\<rparr>;
            stamp = file_stamp (clock 0);
            files = map (\<lambda>(i, (dmn, reqs)).
                       (path_join (path_join (CAPTURES_DIR cfg) dmn) (stamp @ ''.json''),
                        \<lparr>capturedAt = clock (Suc i), duration = DURATION cfg,
                         cdpPort = CDP_PORT cfg, domain = dmn, requests = reqs\<rparr>))
                      (enumerate 0 (capturedByDomain s))
        in s\<lparr>written := written s @ files, exited := True\<rparr>)"

definition step :: "config \<Rightarrow> url_parser \<Rightarrow> event \<Rightarrow> cstate \<Rightarrow> cstate" where
  "step cfg URL ev s =
     (if exited s then s
      else case ev of
             WsMessage now msg \<Rightarrow> on_message cfg URL now msg s
           | BodyResolved call body \<Rightarrow> on_body URL call (Some body) s
           | BodyRejected call \<Rightarrow> on_body URL call None s
           | TimerFired clock \<Rightarrow> shutdown cfg URL clock s
           | SIGINT clock \<Rightarrow> shutdown cfg URL clock s
           | SIGTERM clock \<Rightarrow> shutdown cfg URL clock s)"

definition run :: "config \<Rightarrow> url_parser \<Rightarrow> event list \<Rightarrow> cstate \<Rightarrow> cstate" where
  "run cfg URL evs s = fold (step cfg URL) evs s"

definition initial :: "nat \<Rightarrow> cstate" where
  "initial pages =
     \<lparr>pendingRequests = [], capturedByDomain = [], totalCaptured = 0, cdp_id = pages,
      bodyFetches = [], shuttingDown = False, written = [], exited = False\<rparr>"

text \<open>The events that start the shutdown.\<close>

definition is_trigger :: "event \<Rightarrow> bool" where
  "is_trigger ev =
     (case ev of TimerFired c \<Rightarrow> True | SIGINT c \<Rightarrow> True | SIGTERM c \<Rightarrow> True | _ \<Rightarrow> False)"

text \<open>
  The invariant of the store: the keys of the per-domain map are distinct; before the
  shutdown nothing has been written, and after it the in-flight map is empty and one
  file has been written per key, in the order of the keys.
\<close>

definition store_inv :: "cstate \<Rightarrow> bool" where
  "store_inv s =
     (distinct (map fst (capturedByDomain s)) \<and>
      (if exited s
       then shuttingDown s \<and> pendingRequests s = [] \<and>
            map (\<lambda>f. domain (snd f)) (written s) = map fst (capturedByDomain s)
       else \<not> shuttingDown s \<and> written s = []))"

text \<open>
  The entries the store holds for a domain, and the in-flight entries of a domain in the
  order of the in-flight map.
\<close>

definition stored_for :: "cstate \<Rightarrow> string \<Rightarrow> entry list" where
  "stored_for s dmn = (case map_of (capturedByDomain s) dmn of None \<Rightarrow> [] | Some es \<Rightarrow> es)"

definition pending_for :: "url_parser \<Rightarrow> cstate \<Rightarrow> string \<Rightarrow> entry list" where
  "pending_for URL s dmn =
     filter (\<lambda>e. getDomain URL (url e) = dmn) (map snd (pendingRequests s))"

section \<open>Example data\<close>

text \<open>Concrete inputs for the examples: a configuration, notifications, a clock, and requests.\<close>

definition cookie_request :: "string \<Rightarrow> entry" where
  "cookie_request c =
     \<lparr>timestamp = ''2026-11-03T10:00:00.000Z'', http_method = ''GET'',
      url = ''https://api.example.com/users/7?expand=orders'',
      requestHeaders = [(''Cookie'', c)], requestBody = None, resourceType = ''XHR'',
      responseStatus = Some 200, responseHeaders = [], responseBody = None\<rparr>"

definition corpus10 :: "entry list" where
  "corpus10 = replicate 6 (cookie_request ''session_id=abc; theme=dark'') @
              replicate 4 (cookie_request ''tracker=1; theme=dark'')"

definition auth_request :: "(string \<times> string) list \<Rightarrow> entry" where
  "auth_request hs =
     \<lparr>timestamp = ''2026-11-03T10:00:00.000Z'', http_method = ''GET'',
      url = ''https://api.example.com/users/7?expand=orders'',
      requestHeaders = hs, requestBody = None, resourceType = ''XHR'',
      responseStatus = Some 200, responseHeaders = [], responseBody = None\<rparr>"

definition auth_corpus10 :: "entry list" where
  "auth_corpus10 =
     replicate 6 (auth_request [(''Authorization'', ''Bearer abc.def''), (''X-CSRF-Token'', ''t1'')]) @
     replicate 4 (auth_request [(''X-Api-Key'', ''k1''), (''Accept'', ''*/*''), (''X-CSRF-Token'', ''t2'')])"

definition cfg0 :: config where
  "cfg0 = \<lparr>CDP_PORT = Some 9222, DURATION = Some 300, CAPTURES_DIR = ''/captures'', REDACT = False\<rparr>"

definition sent0 :: request_sent where
  "sent0 = \<lparr>rs_requestId = ''1000.1'', rs_url = ''https://api.example.com/users/48291/orders/3'',
     rs_method = ''POST'', rs_headers = None, rs_postData = Some ''hello'', rs_type = Some ''XHR'',
     rs_resourceType = None\<rparr>"

definition clock0 :: "nat \<Rightarrow> string" where
  "clock0 n = ''2026-11-03T10:00:00.000Z''"

definition big_body :: string where
  "big_body = replicate 10241 CHR ''a''"

definition response_of :: "string \<Rightarrow> entry" where
  "response_of b =
     \<lparr>timestamp = ''2026-11-03T10:00:00.000Z'', http_method = ''GET'',
      url = ''https://api.example.com/users/7?expand=orders'',
      requestHeaders = [], requestBody = None, resourceType = ''Fetch'',
      responseStatus = Some 200, responseHeaders = [], responseBody = Some b\<rparr>"

definition cli0 :: cli where
  "cli0 = \<lparr>DOMAIN = Some ''example.com'', SKILL_NAME = None\<rparr>"

definition capture0 :: capture where
  \<open>capture0 =
     \<lparr>capturedAt = ''2026-11-03T10:05:00.000Z'', duration = Some 300, cdpPort = Some 9222,
      domain = ''example.com'',
      requests = [response_of ''{"ok":true}'', cookie_request ''session_id=abc'']\<rparr>\<close>

definition array_capture :: capture where
  "array_capture =
     \<lparr>capturedAt = ''2026-11-03T10:05:00.000Z'', duration = None, cdpPort = None,
      domain = ''example.com'', requests = [response_of '' [1,2,3]'']\<rparr>"

section \<open>Properties of the endpoint normalizer\<close>

lemma path_rules_uuid_example:
  "path_rules ''/items/01234567-89ab-cdef-0123-456789abcdef/view'' = ''/items/{uuid}/view''"
  by code_simp

lemma path_rules_id_example:
  "path_rules ''/users/48291/orders/3'' = ''/users/{id}/orders/3''"
  by code_simp

text \<open>
  Claim C1, as the code has it: whatever URL the parser reads the path from, the path
  \<^verbatim>\<open>/items/01234567-89ab-cdef-0123-456789abcdef/view\<close> is normalized to
  \<^verbatim>\<open>/items/{uuid}/view\<close>, and the path \<^verbatim>\<open>/users/48291/orders/3\<close> to
  \<^verbatim>\<open>/users/{id}/orders/3\<close>: the numeric rule \<^verbatim>\<open>\d{2,}\<close> asks for two digits, so
  the one-digit segment stays.
\<close>

theorem normalizePath_examples:
  "URL urlStr = Some u \<Longrightarrow>
     (pathname u = ''/items/01234567-89ab-cdef-0123-456789abcdef/view'' \<longrightarrow>
        normalizePath URL urlStr = ''/items/{uuid}/view'') \<and>
     (pathname u = ''/users/48291/orders/3'' \<longrightarrow>
        normalizePath URL urlStr = ''/users/{id}/orders/3'')"
  by (simp add: normalizePath_def path_rules_uuid_example path_rules_id_example)

theorem normalizePath_examples_witness:
  "normalizePath example_URL
     ''https://api.example.com/items/01234567-89ab-cdef-0123-456789abcdef/view'' =
     ''/items/{uuid}/view'' \<and>
   normalizePath example_URL ''https://api.example.com/users/48291/orders/3'' =
     ''/users/{id}/orders/3''"
proof -
  have a: "example_URL
      ''https://api.example.com/items/01234567-89ab-cdef-0123-456789abcdef/view'' =
      Some \<lparr>hostname = ''api.example.com'',
         pathname = ''/items/01234567-89ab-cdef-0123-456789abcdef/view'',
         searchParams = []\<rparr>"
    by code_simp
  have b: "example_URL ''https://api.example.com/users/48291/orders/3'' =
      Some \<lparr>hostname = ''api.example.com'', pathname = ''/users/48291/orders/3'',
         searchParams = []\<rparr>"
    by code_simp
  from normalizePath_examples [of example_URL, OF a]
    normalizePath_examples [of example_URL, OF b] show ?thesis
    by simp
qed

text \<open>
  The claim as the spec words it fails on its second example: the last segment
  \<^verbatim>\<open>3\<close> has one digit and is not replaced.
\<close>

theorem normalizePath_examples_counterexample:
  "normalizePath example_URL ''https://api.example.com/users/48291/orders/3'' \<noteq>
     ''/users/{id}/orders/{id}''"
  by code_simp

text \<open>
  The third example of the spec: a segment of thirteen digits is also a hexadecimal
  segment of 8 to 64 characters, which the second rule replaces before the numeric
  rules run.
\<close>

lemma normalizePath_sync_example:
  "normalizePath example_URL ''https://api.example.com/sync/1700000000000'' =
     ''/sync/{hash}''"
  by code_simp

subsection \<open>The replacements are idempotent\<close>

lemma replace_all_no_match: "no_match re s \<Longrightarrow> replace_all re r s = s"
  by (induction s) simp_all

lemma no_match_drop: "no_match re s \<Longrightarrow> no_match re (drop k s)"
proof (induction s arbitrary: k)
  case Nil
  then show ?case by simp
next
  case (Cons c cs)
  then show ?case by (cases k) simp_all
qed

lemma find_desc:
  assumes small: "\<And>k. k < n \<Longrightarrow> \<not> P k" and le: "m \<le> n"
  shows "find P (rev [lo..<Suc m]) = (if lo \<le> m \<and> m = n \<and> P n then Some n else None)"
proof (cases "lo \<le> m \<and> m = n \<and> P n")
  case True
  then show ?thesis by simp
next
  case False
  have "\<not> P k" if "k \<in> set (rev [lo..<Suc m])" for k
  proof (cases "k < n")
    case True
    then show ?thesis by (rule small)
  next
    case nless: False
    from that have "lo \<le> k" "k \<le> m" by auto
    with nless le have "k = n" "m = n" "lo \<le> m" by auto
    with False show ?thesis by simp
  qed
  then have "find P (rev [lo..<Suc m]) = None"
    using find_None_iff [of P "rev [lo..<Suc m]"] by blast
  with False show ?thesis by simp
qed

lemma drop_takeWhile_boundary:
  assumes "\<not> cls CHR ''/''" and "k < length (takeWhile cls t)"
  shows "\<not> at_boundary (drop k t)"
proof -
  from assms(2) have kt: "k < length t"
    using length_takeWhile_le [of cls t] by simp
  have "cls (t ! k)"
  proof -
    from assms(2) have "takeWhile cls t ! k \<in> set (takeWhile cls t)"
      by (rule nth_mem)
    then have "cls (takeWhile cls t ! k)"
      by (rule set_takeWhileD [THEN conjunct2])
    with assms(2) show ?thesis
      by (simp add: takeWhile_nth)
  qed
  with assms(1) have "t ! k \<noteq> CHR ''/''" by auto
  moreover from kt have "drop k t = t ! k # drop (Suc k) t"
    by (simp add: Cons_nth_drop_Suc)
  ultimately show ?thesis by (simp add: at_boundary_def)
qed

lemma seg_re_run:
  assumes "\<not> cls CHR ''/''"
  shows "seg_re cls lo hi (CHR ''/'' # t) =
     (let n = length (takeWhile cls t)
      in if lo \<le> n \<and> (case hi of None \<Rightarrow> True | Some h \<Rightarrow> n \<le> h) \<and>
            at_boundary (dropWhile cls t)
         then Some (Suc n) else None)"
proof -
  let ?n = "length (takeWhile cls t)"
  let ?P = "\<lambda>k. at_boundary (drop k t)"
  have small: "\<And>k. k < ?n \<Longrightarrow> \<not> ?P k"
    by (rule drop_takeWhile_boundary [of cls, OF assms])
  have at_n: "?P ?n = at_boundary (dropWhile cls t)"
    by (simp add: dropWhile_eq_drop)
  show ?thesis
  proof (cases hi)
    case None
    have "find ?P (rev [lo..<Suc ?n]) = (if lo \<le> ?n \<and> ?P ?n then Some ?n else None)"
      using find_desc [of ?n ?P ?n lo, OF small] by simp
    with None at_n show ?thesis
      by (simp add: seg_re_def Let_def)
  next
    case (Some h)
    have "find ?P (rev [lo..<Suc (min ?n h)]) =
        (if lo \<le> ?n \<and> ?n \<le> h \<and> ?P ?n then Some ?n else None)"
      using find_desc [of ?n ?P "min ?n h" lo, OF small] by (auto simp: min_def)
    with Some at_n show ?thesis
      by (simp add: seg_re_def Let_def)
  qed
qed

lemma first_seg_simps [simp]:
  "first_seg [] = []"
  "first_seg (CHR ''/'' # t) = []"
  "c \<noteq> CHR ''/'' \<Longrightarrow> first_seg (c # t) = c # first_seg t"
  by (simp_all add: first_seg_def)

lemma first_seg_append:
  "\<forall>c \<in> set xs. c \<noteq> CHR ''/'' \<Longrightarrow> first_seg (xs @ ys) = xs @ first_seg ys"
  by (induction xs) simp_all

lemma at_boundary_first_seg: "at_boundary t \<Longrightarrow> first_seg t = []"
  by (cases t) (simp_all add: at_boundary_def)

lemma cls_run_first_seg:
  assumes "\<not> cls CHR ''/''"
  shows "at_boundary (dropWhile cls t) \<longleftrightarrow> list_all cls (first_seg t)"
    and "at_boundary (dropWhile cls t) \<Longrightarrow> takeWhile cls t = first_seg t"
proof -
  have no_slash: "\<forall>c \<in> set (takeWhile cls t). c \<noteq> CHR ''/''"
    using assms by (auto dest: set_takeWhileD)
  show eq: "takeWhile cls t = first_seg t" if "at_boundary (dropWhile cls t)"
  proof -
    have "first_seg t = first_seg (takeWhile cls t @ dropWhile cls t)"
      by simp
    also have "\<dots> = takeWhile cls t @ first_seg (dropWhile cls t)"
      by (rule first_seg_append [OF no_slash])
    also have "\<dots> = takeWhile cls t"
      using that by (simp add: at_boundary_first_seg)
    finally show ?thesis by simp
  qed
  show "at_boundary (dropWhile cls t) \<longleftrightarrow> list_all cls (first_seg t)"
  proof
    assume b: "at_boundary (dropWhile cls t)"
    have "list_all cls (takeWhile cls t)"
      by (auto simp: list_all_iff dest: set_takeWhileD)
    with eq [OF b] show "list_all cls (first_seg t)" by simp
  next
    assume all: "list_all cls (first_seg t)"
    have split: "t = first_seg t @ dropWhile (\<lambda>c. c \<noteq> CHR ''/'') t"
      by (simp add: first_seg_def)
    have rest: "at_boundary (dropWhile (\<lambda>c. c \<noteq> CHR ''/'') t)"
    proof (cases "dropWhile (\<lambda>c. c \<noteq> CHR ''/'') t")
      case Nil
      show ?thesis unfolding at_boundary_def Nil by simp
    next
      case (Cons d ds)
      then have "dropWhile (\<lambda>c. c \<noteq> CHR ''/'') t \<noteq> []" by simp
      from hd_dropWhile [OF this] Cons have "d = CHR ''/''" by simp
      then show ?thesis unfolding at_boundary_def Cons by simp
    qed
    have "dropWhile cls t = dropWhile cls (first_seg t @ dropWhile (\<lambda>c. c \<noteq> CHR ''/'') t)"
      by (rule arg_cong [OF split])
    also have "\<dots> = dropWhile cls (dropWhile (\<lambda>c. c \<noteq> CHR ''/'') t)"
      using all by (simp add: dropWhile_append2 list_all_iff)
    also have "\<dots> = dropWhile (\<lambda>c. c \<noteq> CHR ''/'') t"
    proof (cases "dropWhile (\<lambda>c. c \<noteq> CHR ''/'') t")
      case Nil
      show ?thesis unfolding Nil by simp
    next
      case (Cons d ds)
      with rest have "d = CHR ''/''" by (simp add: at_boundary_def)
      with assms show ?thesis unfolding Cons by simp
    qed
    finally show "at_boundary (dropWhile cls t)"
      using rest by simp
  qed
qed

lemma seg_re_first:
  assumes "\<not> cls CHR ''/''"
  shows "seg_re cls lo hi (CHR ''/'' # t) =
     (if list_all cls (first_seg t) \<and> lo \<le> length (first_seg t) \<and>
         (case hi of None \<Rightarrow> True | Some h \<Rightarrow> length (first_seg t) \<le> h)
      then Some (Suc (length (first_seg t))) else None)"
proof (cases "at_boundary (dropWhile cls t)")
  case True
  with cls_run_first_seg [of cls t, OF assms] show ?thesis
    by (simp add: seg_re_run [of cls, OF assms] Let_def)
next
  case False
  with cls_run_first_seg(1) [of cls t, OF assms] show ?thesis
    by (simp add: seg_re_run [of cls, OF assms] Let_def)
qed

lemma seg_re_other [simp]:
  "seg_re cls lo hi [] = None"
  "c \<noteq> CHR ''/'' \<Longrightarrow> seg_re cls lo hi (c # t) = None"
  "seg_re cls lo hi s \<noteq> Some 0"
  by (auto simp: seg_re_def Let_def split: list.splits)

lemma no_match_suffix: "no_match re s \<Longrightarrow> suffix x s \<Longrightarrow> re x = None"
proof (induction s)
  case Nil
  then show ?case by simp
next
  case (Cons c cs)
  then show ?case by (auto simp: suffix_Cons)
qed

lemma first_seg_replace:
  assumes only_slash: "\<And>x k. re x = Some k \<Longrightarrow> \<exists>t. x = CHR ''/'' # t"
  shows "first_seg (replace_all re (CHR ''/'' # r') s) = first_seg s"
proof (induction s)
  case Nil
  have "re [] = None"
    using only_slash [of "[]"] by (cases "re []") auto
  then show ?case by simp
next
  case (Cons c cs)
  show ?case
  proof (cases "re (c # cs)")
    case None
    with Cons show ?thesis by (cases "c = CHR ''/''") simp_all
  next
    case (Some k)
    from only_slash [OF this] have "c = CHR ''/''" by simp
    with Some show ?thesis by (cases k) simp_all
  qed
qed

lemma no_match_skip:
  "\<forall>c \<in> set xs. c \<noteq> CHR ''/'' \<Longrightarrow>
     no_match (seg_re cls lo hi) (xs @ ys) = no_match (seg_re cls lo hi) ys"
  by (induction xs) simp_all

lemma seg_target_pass:
  assumes cls: "\<not> cls CHR ''/''" "\<not> cls CHR ''{''"
    and only_slash: "\<And>x k. re x = Some k \<Longrightarrow> \<exists>t. x = CHR ''/'' # t"
    and nonzero: "\<And>x. re x \<noteq> Some 0"
    and r: "CHR ''/'' \<notin> set r''"
  shows "(\<forall>x. suffix x s \<longrightarrow> re x = None \<longrightarrow> seg_re cls lo hi x = None) \<longrightarrow>
     no_match (seg_re cls lo hi) (replace_all re (CHR ''/'' # CHR ''{'' # r'') s)"
proof (induction s rule: length_induct)
  case (1 s)
  let ?S = "seg_re cls lo hi"
  let ?R = "replace_all re (CHR ''/'' # CHR ''{'' # r'')"
  show ?case
  proof
    assume agree: "\<forall>x. suffix x s \<longrightarrow> re x = None \<longrightarrow> ?S x = None"
    show "no_match ?S (?R s)"
    proof (cases s)
      case Nil
      have "re [] = None"
        using only_slash [of "[]"] by (cases "re []") auto
      with Nil show ?thesis by simp
    next
      case (Cons c cs)
      have sub: "\<forall>x. suffix x (drop k cs) \<longrightarrow> re x = None \<longrightarrow> ?S x = None" for k
      proof (intro allI impI)
        fix x assume "suffix x (drop k cs)" and none: "re x = None"
        then have "suffix x s"
          unfolding Cons by (meson suffix_ConsI suffix_drop suffix_order.trans)
        with agree none show "?S x = None" by blast
      qed
      have ih: "no_match ?S (?R (drop k cs))" for k
        using 1 sub [of k] by (simp add: Cons)
      show ?thesis
      proof (cases "re (c # cs)")
        case None
        with agree have here: "?S (c # cs) = None"
          by (simp add: Cons)
        have "?S (c # ?R cs) = None"
        proof (cases "c = CHR ''/''")
          case True
          have fs: "first_seg (?R cs) = first_seg cs"
            by (rule first_seg_replace [of re, OF only_slash])
          have "?S (CHR ''/'' # ?R cs) = ?S (CHR ''/'' # cs)"
            by (simp only: seg_re_first [of cls, OF cls(1)] fs)
          with here True show ?thesis
            by simp
        next
          case False
          then show ?thesis by simp
        qed
        with None ih [of 0] show ?thesis
          by (simp add: Cons)
      next
        case (Some k)
        from only_slash [OF this] have c: "c = CHR ''/''" by simp
        from Some nonzero obtain j where k: "k = Suc j"
          by (cases k) auto
        have brace: "?S (CHR ''/'' # CHR ''{'' # r'' @ ?R (drop j cs)) = None"
          using cls(2) by (simp add: seg_re_first [of cls, OF cls(1)])
        have "no_match ?S ((CHR ''{'' # r'') @ ?R (drop j cs))"
          using r ih [of j] by (subst no_match_skip) auto
        with brace Some k show ?thesis
          by (simp add: Cons)
      qed
    qed
  qed
qed

lemma slots_replace:
  "\<forall>p \<in> set ps. \<not> p r0 \<Longrightarrow> match_slots ps (replace_all re (r0 # r') s) \<Longrightarrow> match_slots ps s"
proof (induction s arbitrary: ps)
  case Nil
  then show ?case
    by (cases ps; cases "re []") simp_all
next
  case (Cons c cs)
  show ?case
  proof (cases ps)
    case Nil
    then show ?thesis by simp
  next
    case ps: (Cons p ps')
    show ?thesis
    proof (cases "re (c # cs)")
      case None
      with Cons.prems ps have "p c" and "match_slots ps' (replace_all re (r0 # r') cs)"
        by simp_all
      moreover from Cons.prems(1) ps have "\<forall>q \<in> set ps'. \<not> q r0" by auto
      ultimately show ?thesis
        using Cons.IH [of ps'] ps by simp
    next
      case (Some k)
      with Cons.prems ps show ?thesis
        by (cases k) simp_all
    qed
  qed
qed

lemma uuid_slots_reject: "\<not> is_hex c \<Longrightarrow> \<not> is_dash c \<Longrightarrow> \<forall>p \<in> set uuid_slots. \<not> p c"
  by (auto simp: uuid_slots_def)

lemma uuid_re_simps:
  "uuid_re [] = None"
  "\<not> is_hex c1 \<Longrightarrow> uuid_re (c1 # t) = None"
  "\<not> is_hex c2 \<Longrightarrow> uuid_re (c1 # c2 # t) = None"
  "uuid_re x \<noteq> Some 0"
  by (simp_all add: uuid_re_def uuid_slots_def eval_nat_numeral)

lemma uuid_target_pass:
  assumes r0: "\<not> is_hex r0" "\<not> is_dash r0"
    and empty: "re [] = None"
    and nonzero: "\<And>x. re x \<noteq> Some 0"
    and tail: "\<And>rest. no_match uuid_re rest \<Longrightarrow> no_match uuid_re ((r0 # r') @ rest)"
  shows "(\<forall>x. suffix x s \<longrightarrow> re x = None \<longrightarrow> uuid_re x = None) \<longrightarrow>
     no_match uuid_re (replace_all re (r0 # r') s)"
proof (induction s rule: length_induct)
  case (1 s)
  let ?R = "replace_all re (r0 # r')"
  show ?case
  proof
    assume agree: "\<forall>x. suffix x s \<longrightarrow> re x = None \<longrightarrow> uuid_re x = None"
    show "no_match uuid_re (?R s)"
    proof (cases s)
      case Nil
      with empty show ?thesis by (simp add: uuid_re_simps)
    next
      case (Cons c cs)
      have sub: "\<forall>x. suffix x (drop k cs) \<longrightarrow> re x = None \<longrightarrow> uuid_re x = None" for k
      proof (intro allI impI)
        fix x assume "suffix x (drop k cs)" and none: "re x = None"
        then have "suffix x s"
          unfolding Cons by (meson suffix_ConsI suffix_drop suffix_order.trans)
        with agree none show "uuid_re x = None" by blast
      qed
      have ih: "no_match uuid_re (?R (drop k cs))" for k
        using 1 sub [of k] by (simp add: Cons)
      show ?thesis
      proof (cases "re (c # cs)")
        case None
        with agree have "uuid_re (c # cs) = None"
          by (simp add: Cons)
        then have "\<not> match_slots uuid_slots (c # cs)"
          by (simp add: uuid_re_def split: if_splits)
        with slots_replace [OF uuid_slots_reject [OF r0], of re r' "c # cs"]
        have "\<not> match_slots uuid_slots (?R (c # cs))"
          by blast
        then have "uuid_re (c # ?R cs) = None"
          using None by (simp add: uuid_re_def)
        with None ih [of 0] show ?thesis
          by (simp add: Cons)
      next
        case (Some k)
        from Some nonzero obtain j where k: "k = Suc j"
          by (cases k) auto
        from tail [OF ih [of j]] Some k show ?thesis
          by (simp add: Cons)
      qed
    qed
  qed
qed

lemma uuid_tails:
  "no_match uuid_re rest \<Longrightarrow> no_match uuid_re (''{uuid}'' @ rest)"
  "no_match uuid_re rest \<Longrightarrow> no_match uuid_re (''/{hash}'' @ rest)"
  "no_match uuid_re rest \<Longrightarrow> no_match uuid_re (''/{id}'' @ rest)"
  by (simp_all add: uuid_re_simps is_hex_def)

lemma seg_re_only_slash: "seg_re cls lo hi x = Some k \<Longrightarrow> \<exists>t. x = CHR ''/'' # t"
  by (cases x) (auto simp: seg_re_def split: if_splits)

lemma class_facts:
  "\<not> is_hex CHR ''/''" "\<not> is_hex CHR ''{''" "\<not> is_dash CHR ''/''" "\<not> is_dash CHR ''{''"
  "\<not> is_digit CHR ''/''" "\<not> is_digit CHR ''{''"
  by (simp_all add: is_hex_def is_dash_def is_digit_def)

lemma uuid_pass_uuid: "no_match uuid_re (replace_all uuid_re ''{uuid}'' s)"
proof -
  have "(\<forall>x. suffix x s \<longrightarrow> uuid_re x = None \<longrightarrow> uuid_re x = None) \<longrightarrow>
      no_match uuid_re (replace_all uuid_re (CHR ''{'' # ''uuid}'') s)"
    by (rule uuid_target_pass) (simp_all add: class_facts uuid_re_simps is_hex_def)
  then show ?thesis by simp
qed

lemma hash_pass_uuid:
  assumes "no_match uuid_re s"
  shows "no_match uuid_re (replace_all hash_re ''/{hash}'' s)"
proof -
  have "(\<forall>x. suffix x s \<longrightarrow> hash_re x = None \<longrightarrow> uuid_re x = None) \<longrightarrow>
      no_match uuid_re (replace_all hash_re (CHR ''/'' # ''{hash}'') s)"
    by (rule uuid_target_pass) (simp_all add: class_facts uuid_re_simps is_hex_def hash_re_def)
  with no_match_suffix [OF assms] show ?thesis by simp
qed

lemma id_pass_uuid:
  assumes "no_match uuid_re s"
  shows "no_match uuid_re (replace_all id_re ''/{id}'' s)"
proof -
  have "(\<forall>x. suffix x s \<longrightarrow> id_re x = None \<longrightarrow> uuid_re x = None) \<longrightarrow>
      no_match uuid_re (replace_all id_re (CHR ''/'' # ''{id}'') s)"
    by (rule uuid_target_pass) (simp_all add: class_facts uuid_re_simps is_hex_def id_re_def)
  with no_match_suffix [OF assms] show ?thesis by simp
qed

lemma hash_pass_hash: "no_match hash_re (replace_all hash_re ''/{hash}'' s)"
proof -
  have "(\<forall>x. suffix x s \<longrightarrow> hash_re x = None \<longrightarrow> seg_re is_hex 8 (Some 64) x = None) \<longrightarrow>
      no_match (seg_re is_hex 8 (Some 64))
        (replace_all hash_re (CHR ''/'' # CHR ''{'' # ''hash}'') s)"
    by (rule seg_target_pass) (auto simp: class_facts hash_re_def dest: seg_re_only_slash)
  then show ?thesis by (simp add: hash_re_def)
qed

lemma id_pass_hash:
  assumes "no_match hash_re s"
  shows "no_match hash_re (replace_all id_re ''/{id}'' s)"
proof -
  have "(\<forall>x. suffix x s \<longrightarrow> id_re x = None \<longrightarrow> seg_re is_hex 8 (Some 64) x = None) \<longrightarrow>
      no_match (seg_re is_hex 8 (Some 64))
        (replace_all id_re (CHR ''/'' # CHR ''{'' # ''id}'') s)"
    by (rule seg_target_pass) (auto simp: class_facts id_re_def dest: seg_re_only_slash)
  with no_match_suffix [OF assms] show ?thesis by (simp add: hash_re_def)
qed

lemma id_pass_id: "no_match id_re (replace_all id_re ''/{id}'' s)"
proof -
  have "(\<forall>x. suffix x s \<longrightarrow> id_re x = None \<longrightarrow> seg_re is_digit 2 None x = None) \<longrightarrow>
      no_match (seg_re is_digit 2 None)
        (replace_all id_re (CHR ''/'' # CHR ''{'' # ''id}'') s)"
    by (rule seg_target_pass) (auto simp: class_facts id_re_def dest: seg_re_only_slash)
  then show ?thesis by (simp add: id_re_def)
qed

lemma ts_re_id_re: "id_re x = None \<Longrightarrow> ts_re x = None"
proof (cases x)
  case Nil
  then show ?thesis by (simp add: ts_re_def)
next
  case (Cons c t)
  assume "id_re x = None"
  with Cons show ?thesis
    by (cases "c = CHR ''/''")
      (auto simp: id_re_def ts_re_def seg_re_first class_facts split: if_splits)
qed

lemma no_match_ts: "no_match id_re s \<Longrightarrow> no_match ts_re s"
  by (induction s) (simp_all add: ts_re_id_re)

lemma path_rules_fixed:
  "no_match uuid_re (path_rules p) \<and> no_match hash_re (path_rules p) \<and>
   no_match id_re (path_rules p) \<and> no_match ts_re (path_rules p)"
proof -
  let ?u = "replace_all uuid_re ''{uuid}'' p"
  let ?h = "replace_all hash_re ''/{hash}'' ?u"
  let ?i = "replace_all id_re ''/{id}'' ?h"
  have i: "no_match id_re ?i" by (rule id_pass_id)
  then have t: "no_match ts_re ?i" by (rule no_match_ts)
  have h: "no_match hash_re ?i" by (rule id_pass_hash [OF hash_pass_hash])
  have u: "no_match uuid_re ?i" by (rule id_pass_uuid [OF hash_pass_uuid [OF uuid_pass_uuid]])
  have "path_rules p = ?i"
    by (simp add: path_rules_def Let_def replace_all_no_match [OF t])
  with u h i t show ?thesis by simp
qed

lemma path_rules_idempotent: "path_rules (path_rules p) = path_rules p"
  using path_rules_fixed [of p]
  by (simp add: path_rules_def [of "path_rules p"] Let_def replace_all_no_match)

text \<open>
  Claim C6, as the code has it: the four replacements are idempotent on every path, so
  normalizing a template they have produced yields the same string whenever the
  template is taken as a path. \<open>normalizePath\<close> itself takes a URL: applied to a template
  it has produced, it returns the template when the URL parser rejects the template, as
  it rejects every string that begins with a slash (what every \<^verbatim>\<open>http\<close> or \<^verbatim>\<open>https\<close>
  URL produces), or when the parser returns the template as its own path.
\<close>

theorem normalizePath_idempotent:
  "path_rules (path_rules p) = path_rules p \<and>
   (URL (normalizePath URL urlStr) = None \<or>
    (\<exists>u. URL (normalizePath URL urlStr) = Some u \<and> pathname u = normalizePath URL urlStr) \<longrightarrow>
      normalizePath URL (normalizePath URL urlStr) = normalizePath URL urlStr)"
proof (intro conjI impI)
  show "path_rules (path_rules p) = path_rules p"
    by (rule path_rules_idempotent)
next
  let ?t = "normalizePath URL urlStr"
  assume "URL ?t = None \<or> (\<exists>u. URL ?t = Some u \<and> pathname u = ?t)"
  then show "normalizePath URL ?t = ?t"
  proof
    assume "URL ?t = None"
    then show ?thesis
      by (simp add: normalizePath_def [of URL ?t])
  next
    assume "\<exists>u. URL ?t = Some u \<and> pathname u = ?t"
    then obtain u where u: "URL ?t = Some u" "pathname u = ?t"
      by blast
    then have again: "normalizePath URL ?t = path_rules ?t"
      by (simp add: normalizePath_def [of URL ?t])
    show ?thesis
    proof (cases "URL urlStr")
      case None
      then have "?t = urlStr"
        by (simp add: normalizePath_def)
      with None u(1) show ?thesis
        by simp
    next
      case (Some u0)
      then have "?t = path_rules (pathname u0)"
        by (simp add: normalizePath_def)
      with again show ?thesis
        by (simp add: path_rules_idempotent)
    qed
  qed
qed

theorem normalizePath_idempotent_witness:
  "path_rules (path_rules ''/users/48291/orders/3'') = path_rules ''/users/48291/orders/3'' \<and>
   normalizePath example_URL
     (normalizePath example_URL ''https://api.example.com/users/48291/orders/3'') =
   normalizePath example_URL ''https://api.example.com/users/48291/orders/3''"
proof -
  have "example_URL (normalizePath example_URL ''https://api.example.com/users/48291/orders/3'') =
      None"
    by code_simp
  with normalizePath_idempotent [of "''/users/48291/orders/3''" example_URL
      "''https://api.example.com/users/48291/orders/3''"]
  show ?thesis
    by blast
qed

text \<open>
  The claim as the spec words it, for every URL string, fails on a URL whose opaque path
  is itself a URL: the template of \<^verbatim>\<open>blob:https://example.com/users/123\<close> is
  \<^verbatim>\<open>https://example.com/users/{id}\<close>, which parses as a URL, and normalizing it
  returns its path \<^verbatim>\<open>/users/%7Bid%7D\<close>.
\<close>

theorem normalizePath_idempotent_counterexample:
  "normalizePath example_URL (normalizePath example_URL ''blob:https://example.com/users/123'') \<noteq>
   normalizePath example_URL ''blob:https://example.com/users/123''"
  by code_simp

lemma normalizePath_blob_example:
  "normalizePath example_URL ''blob:https://example.com/users/123'' =
     ''https://example.com/users/{id}'' \<and>
   normalizePath example_URL ''https://example.com/users/{id}'' = ''/users/%7Bid%7D''"
  by code_simp

section \<open>Properties of the schema inferencer and the synthesizer\<close>




lemma describeType_hd:
  "describeType v depth maxDepth \<noteq> [] \<and> hd (describeType v depth maxDepth) \<noteq> CHR ''*''"
proof (cases v)
  case (JArray vs)
  then show ?thesis
    by (cases vs) (simp_all del: show_nat.simps)
next
  case (JObject kvs)
  then show ?thesis
    by (simp add: Let_def del: show_nat.simps)
next
  case (JString val)
  then show ?thesis
    by (simp add: dquote_def del: show_nat.simps)
qed simp_all

lemma describeType_nonempty: "describeType v depth maxDepth \<noteq> []"
  using describeType_hd [of v depth maxDepth] by simp

lemma describeType_not_heading: "describeType v depth maxDepth \<noteq> ''**Response schema:**''"
proof
  assume "describeType v depth maxDepth = ''**Response schema:**''"
  then have "hd (describeType v depth maxDepth) = CHR ''*''"
    by simp
  with describeType_hd [of v depth maxDepth] show False
    by simp
qed

lemma response_schema_block_cases:
  "response_schema_block JSON_parse r =
     (case responseBody r of
        None \<Rightarrow> []
      | Some b \<Rightarrow>
          if b \<noteq> [] \<and> \<not> prefix ''['' b then
            (case JSON_parse b of
               None \<Rightarrow> []
             | Some v \<Rightarrow> [''**Response schema:**'', ''```'', describeType v 0 2, ''```'', []])
          else [])"
  by (simp add: response_schema_block_def inferSchema_def describeType_nonempty
      split: option.splits)

lemma request_schema_block_cases:
  "request_schema_block JSON_parse m r = [] \<or>
   (\<exists>v. request_schema_block JSON_parse m r =
      [''**Request body schema:**'', ''```'', describeType v 0 2, ''```'', []])"
proof (cases "requestBody r")
  case None
  then show ?thesis
    by (simp add: request_schema_block_def)
next
  case (Some b)
  then show ?thesis
    by (cases "JSON_parse b")
       (auto simp: request_schema_block_def inferSchema_def describeType_nonempty)
qed

lemma request_schema_block_heading:
  "''**Response schema:**'' \<notin> set (request_schema_block JSON_parse m r)"
  using request_schema_block_cases [of JSON_parse m r]
  by (auto simp: describeType_not_heading describeType_not_heading [THEN not_sym])

lemma curlParts_shape:
  "curlParts r =
     (''curl -s '' @ apos @ url r @ apos) # (''  -H '' @ apos @ ''Cookie: $COOKIES'' @ apos) #
     drop 2 (curlParts r)"
  by (simp add: curlParts_def Let_def)

lemma curl_heading: "join sep (curlParts r) \<noteq> ''**Response schema:**''"
proof -
  have "join sep (curlParts r) =
      (''curl -s '' @ apos @ url r @ apos) @ sep @
      join sep ((''  -H '' @ apos @ ''Cookie: $COOKIES'' @ apos) # drop 2 (curlParts r))"
    by (subst curlParts_shape) simp
  then show ?thesis
    by simp
qed

lemma endpoint_section_shape:
  assumes "endpoint_section JSON_parse ep = Some lines"
  shows "\<exists>r title example codes.
           representative_of (ep_requests ep) = Some r \<and>
           lines =
             [''### '' @ title, [], ''**Example URL:** '' @ example, [],
              ''**Status codes:** '' @ codes, [], ''```bash'',
              join ('' '' @ backslash @ newline) (curlParts r), ''```'', []] @
             request_schema_block JSON_parse (ep_method ep) r @
             response_schema_block JSON_parse r"
  using assms
  by (cases "representative_of (ep_requests ep)")
     (auto simp: endpoint_section_def Let_def simp del: show_nat.simps)

lemma endpoint_section_tail:
  assumes "endpoint_section JSON_parse ep = Some lines"
  shows "\<exists>r pre. representative_of (ep_requests ep) = Some r \<and>
           lines = pre @ response_schema_block JSON_parse r \<and>
           ''**Response schema:**'' \<notin> set pre"
proof -
  from endpoint_section_shape [OF assms] obtain r title example codes
    where r: "representative_of (ep_requests ep) = Some r"
      and l: "lines =
             [''### '' @ title, [], ''**Example URL:** '' @ example, [],
              ''**Status codes:** '' @ codes, [], ''```bash'',
              join ('' '' @ backslash @ newline) (curlParts r), ''```'', []] @
             request_schema_block JSON_parse (ep_method ep) r @
             response_schema_block JSON_parse r"
    by blast
  let ?pre = "[''### '' @ title, [], ''**Example URL:** '' @ example, [],
              ''**Status codes:** '' @ codes, [], ''```bash'',
              join ('' '' @ backslash @ newline) (curlParts r), ''```'', []] @
             request_schema_block JSON_parse (ep_method ep) r"
  have "''**Response schema:**'' \<notin> set ?pre"
    using curl_heading [of "'' '' @ backslash @ newline" r]
      request_schema_block_heading [of JSON_parse "ep_method ep" r]
    by auto
  moreover from l have "lines = ?pre @ response_schema_block JSON_parse r"
    by simp
  ultimately show ?thesis
    using r by blast
qed

text \<open>
  Claim C9: the response-schema block is empty unless the representative record has a
  response body that is not empty and does not begin with \<^verbatim>\<open>[\<close>; a body that begins
  with \<^verbatim>\<open>[\<close> gets no response schema, whether it is a JSON array the parser accepts or
  the diagnostic \<^verbatim>\<open>[failed: ...]\<close> of a failed load. Every other body that is not empty
  and that the parser accepts gets the block with the description of its value, an array
  included. The block is the end of the endpoint's section, and the heading
  \<^verbatim>\<open>**Response schema:**\<close> is a line of the section only when the body is not empty and
  does not begin with \<^verbatim>\<open>[\<close>.
\<close>

theorem response_schema_guard:
  "(response_schema_block JSON_parse representative \<noteq> [] \<longrightarrow>
      (\<exists>b. responseBody representative = Some b \<and> b \<noteq> [] \<and> \<not> prefix ''['' b)) \<and>
   (responseBody representative = Some b \<and> prefix ''['' b \<longrightarrow>
      response_schema_block JSON_parse representative = []) \<and>
   (responseBody representative = Some (''[failed: '' @ errorText @ '']'') \<longrightarrow>
      response_schema_block JSON_parse representative = []) \<and>
   (responseBody representative = Some b \<and> b \<noteq> [] \<and> \<not> prefix ''['' b \<and>
    JSON_parse b = Some v \<longrightarrow>
      response_schema_block JSON_parse representative =
        [''**Response schema:**'', ''```'', describeType v 0 2, ''```'', []]) \<and>
   (endpoint_section JSON_parse ep = Some lines \<longrightarrow>
      (\<exists>r pre. representative_of (ep_requests ep) = Some r \<and>
         lines = pre @ response_schema_block JSON_parse r \<and>
         ''**Response schema:**'' \<notin> set pre \<and>
         (''**Response schema:**'' \<in> set lines \<longrightarrow>
            (\<exists>b. responseBody r = Some b \<and> b \<noteq> [] \<and> \<not> prefix ''['' b))))"
proof (intro conjI impI)
  assume "endpoint_section JSON_parse ep = Some lines"
  from endpoint_section_tail [OF this] obtain r pre
    where r: "representative_of (ep_requests ep) = Some r"
      and l: "lines = pre @ response_schema_block JSON_parse r"
      and p: "''**Response schema:**'' \<notin> set pre"
    by blast
  have "\<exists>b. responseBody r = Some b \<and> b \<noteq> [] \<and> \<not> prefix ''['' b"
    if "''**Response schema:**'' \<in> set lines"
  proof -
    from that l p have "response_schema_block JSON_parse r \<noteq> []"
      by auto
    then show ?thesis
      by (auto simp: response_schema_block_cases split: option.splits if_splits)
  qed
  with r l p show "\<exists>r pre. representative_of (ep_requests ep) = Some r \<and>
         lines = pre @ response_schema_block JSON_parse r \<and>
         ''**Response schema:**'' \<notin> set pre \<and>
         (''**Response schema:**'' \<in> set lines \<longrightarrow>
            (\<exists>b. responseBody r = Some b \<and> b \<noteq> [] \<and> \<not> prefix ''['' b))"
    by blast
qed (auto simp: response_schema_block_cases split: option.splits)

theorem response_schema_guard_witness:
  \<open>response_schema_block example_JSON (response_of ''{"ok":true}'') =
     [''**Response schema:**'', ''```'', ''{\<newline>  ok: boolean\<newline>}'', ''```'', []] \<and>
   (\<exists>b. responseBody (response_of ''{"ok":true}'') = Some b \<and> b \<noteq> [] \<and> \<not> prefix ''['' b) \<and>
   example_JSON ''[1,2,3]'' \<noteq> None \<and>
   response_schema_block example_JSON (response_of ''[1,2,3]'') = [] \<and>
   response_schema_block example_JSON (response_of ''[failed: net::ERR_FAILED]'') = [] \<and>
   (\<exists>lines r pre.
      endpoint_section example_JSON
        \<lparr>ep_method = ''GET'', normalizedPath = ''/users/7'',
         ep_requests = [response_of ''{"ok":true}''], queryParams = [''expand'']\<rparr> = Some lines \<and>
      representative_of [response_of ''{"ok":true}''] = Some r \<and>
      lines = pre @ response_schema_block example_JSON r \<and>
      ''**Response schema:**'' \<notin> set pre)\<close>
proof -
  let ?ep = \<open>\<lparr>ep_method = ''GET'', normalizedPath = ''/users/7'',
         ep_requests = [response_of ''{"ok":true}''], queryParams = [''expand'']\<rparr>\<close>
  have a: \<open>responseBody (response_of ''{"ok":true}'') = Some ''{"ok":true}'' \<and>
      ''{"ok":true}'' \<noteq> [] \<and> \<not> prefix ''['' ''{"ok":true}'' \<and>
      example_JSON ''{"ok":true}'' = Some (JObject [(''ok'', JBool True)])\<close>
    by code_simp
  have s: \<open>describeType (JObject [(''ok'', JBool True)]) 0 2 = ''{\<newline>  ok: boolean\<newline>}''\<close>
    by code_simp
  have b: \<open>responseBody (response_of ''[1,2,3]'') = Some ''[1,2,3]'' \<and> prefix ''['' ''[1,2,3]''\<close>
    by (simp add: response_of_def)
  have c: \<open>responseBody (response_of ''[failed: net::ERR_FAILED]'') =
      Some (''[failed: '' @ ''net::ERR_FAILED'' @ '']'')\<close>
    by (simp add: response_of_def)
  have d: \<open>example_JSON ''[1,2,3]'' \<noteq> None\<close>
    by code_simp
  have \<open>endpoint_section example_JSON ?ep \<noteq> None\<close>
    by code_simp
  then obtain lines where e: \<open>endpoint_section example_JSON ?ep = Some lines\<close>
    by blast
  from response_schema_guard [of example_JSON \<open>response_of ''{"ok":true}''\<close> \<open>''{"ok":true}''\<close>
      _ \<open>JObject [(''ok'', JBool True)]\<close> ?ep lines] a s e
  have 1: \<open>response_schema_block example_JSON (response_of ''{"ok":true}'') =
     [''**Response schema:**'', ''```'', ''{\<newline>  ok: boolean\<newline>}'', ''```'', []]\<close>
    and 2: \<open>\<exists>r pre. representative_of [response_of ''{"ok":true}''] = Some r \<and>
      lines = pre @ response_schema_block example_JSON r \<and>
      ''**Response schema:**'' \<notin> set pre\<close>
    by auto
  from response_schema_guard [of example_JSON \<open>response_of ''[1,2,3]''\<close> \<open>''[1,2,3]''\<close>]
    response_schema_guard [of example_JSON \<open>response_of ''[failed: net::ERR_FAILED]''\<close> _
      \<open>''net::ERR_FAILED''\<close>]
    a b c d e 1 2
  show ?thesis
    by blast
qed

text \<open>
  A JSON array text with a space before the bracket: the parser returns the array, the
  record is the representative of its endpoint, the section of the endpoint ends with
  the response-schema block that describes the array, and the document generated from a
  capture with this one record contains the block.
\<close>

theorem response_schema_array_counterexample:
  \<open>example_JSON '' [1,2,3]'' = Some (JArray [JNumber 1, JNumber 2, JNumber 3]) \<and>
   map ep_requests (sortedEndpoints example_URL [response_of '' [1,2,3]'']) =
     [[response_of '' [1,2,3]'']] \<and>
   representative_of [response_of '' [1,2,3]''] = Some (response_of '' [1,2,3]'') \<and>
   response_schema_block example_JSON (response_of '' [1,2,3]'') =
     [''**Response schema:**'', ''```'', ''[number] (3 items)'', ''```'', []] \<and>
   map (\<lambda>ep. map_option (drop 10) (endpoint_section example_JSON ep))
     (sortedEndpoints example_URL [response_of '' [1,2,3]'']) =
     [Some [''**Response schema:**'', ''```'', ''[number] (3 items)'', ''```'', []]] \<and>
   (case skillContent example_URL example_JSON cli0 ''2026-11-03T10:05:00.000Z'' array_capture of
      Inl err \<Rightarrow> False
    | Inr doc \<Rightarrow>
        str_includes doc ''**Response schema:**\<newline>```\<newline>[number] (3 items)\<newline>```'')\<close>
  by code_simp

section \<open>Properties of the auth-pattern detector\<close>

lemma sorted_desc_counts:
  "sorted_wrt (\<lambda>x y. snd x \<ge> snd y) (sort_key (\<lambda>(name, count). - int count) (xs :: counts))"
proof -
  have "sorted (map (\<lambda>(name, count). - int count) (sort_key (\<lambda>(name, count). - int count) xs))"
    by (rule sorted_sort_key)
  then show ?thesis
    by (simp add: sorted_wrt_map case_prod_unfold)
qed

lemma corpus10_cookies: "consistentCookies corpus10 = [''theme'', ''session_id'']"
  by code_simp

lemma header_step_cookies:
  "snd (header_step kv acc) = fold map_incr (header_cookies kv) (snd acc)"
  by (cases kv; cases acc) (simp add: header_step_def header_cookies_def Let_def)

lemma fold_header_step_cookies:
  "snd (fold header_step hs acc) = fold map_incr (concat (map header_cookies hs)) (snd acc)"
  by (induction hs arbitrary: acc) (simp_all add: header_step_cookies)

lemma fold_requests_cookies:
  "snd (fold (\<lambda>req acc. fold header_step (requestHeaders req) acc) reqs acc) =
     fold map_incr (cookie_occurrences reqs) (snd acc)"
  by (induction reqs arbitrary: acc) (simp_all add: cookie_occurrences_def fold_header_step_cookies)

lemma detect_cookies: "snd (detectAuthPatterns reqs) = fold map_incr (cookie_occurrences reqs) []"
  by (simp add: detectAuthPatterns_def fold_requests_cookies)

lemma map_of_map_incr:
  "map_of (map_incr k m) k' =
     (if k' = k then Some ((case map_of m k of None \<Rightarrow> 0 | Some c \<Rightarrow> c) + 1) else map_of m k')"
  by (simp add: map_incr_def update_conv')

lemma distinct_map_incr: "distinct (map fst m) \<Longrightarrow> distinct (map fst (map_incr k m))"
  by (simp add: map_incr_def distinct_update)

lemma map_of_fold_incr:
  "map_of (fold map_incr ks m) k =
     (case map_of m k of
        None \<Rightarrow> if count_list ks k = 0 then None else Some (count_list ks k)
      | Some c \<Rightarrow> Some (c + count_list ks k))"
  by (induction ks arbitrary: m) (auto simp: map_of_map_incr split: option.splits)

lemma distinct_fold_incr:
  "distinct (map fst m) \<Longrightarrow> distinct (map fst (fold map_incr ks m))"
  by (induction ks arbitrary: m) (simp_all add: distinct_map_incr)

lemma cookie_count:
  "(name, count) \<in> set (snd (detectAuthPatterns reqs)) \<longleftrightarrow>
     count = count_list (cookie_occurrences reqs) name \<and> 0 < count"
proof -
  let ?m = "fold map_incr (cookie_occurrences reqs) []"
  have d: "distinct (map fst ?m)"
    by (rule distinct_fold_incr) simp
  have "(name, count) \<in> set ?m \<longleftrightarrow> map_of ?m name = Some count"
    using d by simp
  also have "\<dots> \<longleftrightarrow> count = count_list (cookie_occurrences reqs) name \<and> 0 < count"
    by (auto simp: map_of_fold_incr)
  finally show ?thesis
    by (simp add: detect_cookies)
qed

lemma consistent_cookie_occurrences:
  "name \<in> set (consistentCookies reqs) \<longleftrightarrow>
     of_nat (count_list (cookie_occurrences reqs) name) \<ge> max (1 :: rat) (of_nat (length reqs) / 2)"
proof -
  have "name \<in> set (consistentCookies reqs) \<longleftrightarrow>
      (\<exists>count. (name, count) \<in> set (snd (detectAuthPatterns reqs)) \<and>
         of_nat count \<ge> max (1 :: rat) (of_nat (length reqs) / 2))"
    by (force simp: consistentCookies_def threshold_def)
  also have "\<dots> \<longleftrightarrow>
      of_nat (count_list (cookie_occurrences reqs) name) \<ge> max (1 :: rat) (of_nat (length reqs) / 2)"
    by (auto simp: cookie_count)
  finally show ?thesis .
qed

lemma header_step_labels:
  "fst (header_step kv acc) = fold map_incr (header_labels kv) (fst acc)"
  by (cases kv; cases acc)
     (simp add: header_step_def header_labels_def auth_label_def is_auth_name_def Let_def)

lemma fold_header_step_labels:
  "fst (fold header_step hs acc) = fold map_incr (concat (map header_labels hs)) (fst acc)"
  by (induction hs arbitrary: acc) (simp_all add: header_step_labels)

lemma fold_requests_labels:
  "fst (fold (\<lambda>req acc. fold header_step (requestHeaders req) acc) reqs acc) =
     fold map_incr (concat (map header_labels (concat (map requestHeaders reqs)))) (fst acc)"
  by (induction reqs arbitrary: acc) (simp_all add: fold_header_step_labels)

lemma detect_labels: "fst (detectAuthPatterns reqs) = fold map_incr (auth_occurrences reqs) []"
  by (simp add: detectAuthPatterns_def auth_occurrences_def fold_requests_labels)

lemma label_count:
  "(label, n) \<in> set (fst (detectAuthPatterns reqs)) \<longleftrightarrow>
     n = count_list (auth_occurrences reqs) label \<and> 0 < n"
proof -
  let ?m = "fold map_incr (auth_occurrences reqs) []"
  have d: "distinct (map fst ?m)"
    by (rule distinct_fold_incr) simp
  have "(label, n) \<in> set ?m \<longleftrightarrow> map_of ?m label = Some n"
    using d by simp
  also have "\<dots> \<longleftrightarrow> n = count_list (auth_occurrences reqs) label \<and> 0 < n"
    by (auto simp: map_of_fold_incr)
  finally show ?thesis
    by (simp add: detect_labels)
qed

lemma consistent_label_occurrences:
  "(label, n) \<in> set (consistentAuthHeaders reqs) \<longleftrightarrow>
     n = count_list (auth_occurrences reqs) label \<and>
     of_nat n \<ge> max (1 :: rat) (of_nat (length reqs) / 2)"
proof -
  have "(label, n) \<in> set (consistentAuthHeaders reqs) \<longleftrightarrow>
      (label, n) \<in> set (fst (detectAuthPatterns reqs)) \<and>
      of_nat n \<ge> max (1 :: rat) (of_nat (length reqs) / 2)"
    by (auto simp: consistentAuthHeaders_def threshold_def)
  also have "\<dots> \<longleftrightarrow> n = count_list (auth_occurrences reqs) label \<and>
     of_nat n \<ge> max (1 :: rat) (of_nat (length reqs) / 2)"
    by (auto simp: label_count)
  finally show ?thesis .
qed

lemma name_occurrences:
  assumes "is_auth_name key" and "\<not> prefix ''Authorization: '' key"
  shows "count_list (concat (map header_labels hs)) key = length (filter (\<lambda>kv. fst kv = key) hs)"
proof (induction hs)
  case Nil
  then show ?case by simp
next
  case (Cons kv hs)
  obtain k v where kv: "kv = (k, v)" by (cases kv)
  have "auth_label v \<noteq> key"
    using assms(2) by (auto simp: auth_label_def)
  then have "count_list (header_labels kv) key = (if k = key then 1 else 0)"
    using assms(1) by (auto simp: header_labels_def kv)
  with Cons.IH show ?case
    by (simp add: kv)
qed

lemma scheme_occurrences:
  assumes "\<not> is_auth_name (''Authorization: '' @ scheme @ '' ...'')"
  shows "count_list (concat (map header_labels hs)) (''Authorization: '' @ scheme @ '' ...'') =
     length (filter (\<lambda>kv. toLowerCase (fst kv) = ''authorization'' \<and>
                or_else (Some (split_first CHR '' '' (snd kv))) ''unknown'' = scheme) hs)"
proof (induction hs)
  case Nil
  then show ?case by simp
next
  case (Cons kv hs)
  obtain k v where kv: "kv = (k, v)" by (cases kv)
  have "count_list (header_labels kv) (''Authorization: '' @ scheme @ '' ...'') =
      (if toLowerCase k = ''authorization'' \<and>
          or_else (Some (split_first CHR '' '' v)) ''unknown'' = scheme then 1 else 0)"
    using assms by (auto simp: header_labels_def kv auth_label_def)
  with Cons.IH show ?case
    by (simp add: kv)
qed

lemma auth_corpus10_headers:
  "consistentAuthHeaders auth_corpus10 = [(''X-CSRF-Token'', 10), (''Authorization: Bearer ...'', 6)]"
  by code_simp

text \<open>
  Claim C7: a cookie name is in the list of consistent cookies if and only if the number
  of its occurrences in the \<^verbatim>\<open>Cookie\<close> headers of the requests, which is its count in
  the detector's map, is at least the maximum of 1 and half the number of requests. A
  header label with its count is in the list of consistent auth headers if and only if
  the count is the number of occurrences of the label in the headers of the requests and
  is at least that threshold; for a header name that the detector records and that is
  not of the form of a scheme label this is the number of headers of that name, and for
  the label of a scheme the number of \<^verbatim>\<open>Authorization\<close> headers of that scheme. Both
  lists are in descending order of the count. In a corpus of ten requests where the cookie
  \<^verbatim>\<open>session_id\<close> occurs in six and the cookie \<^verbatim>\<open>tracker\<close> in four, the first is
  consistent and the second is not; where a bearer \<^verbatim>\<open>Authorization\<close> header occurs in
  six, \<^verbatim>\<open>X-Api-Key\<close> in four and \<^verbatim>\<open>X-CSRF-Token\<close> in all ten, the consistent headers
  are \<^verbatim>\<open>X-CSRF-Token\<close> and the bearer label, in this order.
\<close>

theorem consistent_iff_threshold:
  "(name \<in> set (consistentCookies reqs) \<longleftrightarrow>
      of_nat (count_list (cookie_occurrences reqs) name) \<ge>
        max (1 :: rat) (of_nat (length reqs) / 2)) \<and>
   (name \<in> set (consistentCookies reqs) \<longleftrightarrow>
      (\<exists>count. (name, count) \<in> set (snd (detectAuthPatterns reqs)) \<and>
         of_nat count \<ge> max (1 :: rat) (of_nat (length reqs) / 2))) \<and>
   ((label, n) \<in> set (consistentAuthHeaders reqs) \<longleftrightarrow>
      (label, n) \<in> set (fst (detectAuthPatterns reqs)) \<and>
         of_nat n \<ge> max (1 :: rat) (of_nat (length reqs) / 2)) \<and>
   ((label, n) \<in> set (consistentAuthHeaders reqs) \<longleftrightarrow>
      n = count_list (auth_occurrences reqs) label \<and>
      of_nat n \<ge> max (1 :: rat) (of_nat (length reqs) / 2)) \<and>
   (is_auth_name key \<and> \<not> prefix ''Authorization: '' key \<longrightarrow>
      count_list (auth_occurrences reqs) key =
        length (filter (\<lambda>kv. fst kv = key) (concat (map requestHeaders reqs)))) \<and>
   (\<not> is_auth_name (''Authorization: '' @ scheme @ '' ...'') \<longrightarrow>
      count_list (auth_occurrences reqs) (''Authorization: '' @ scheme @ '' ...'') =
        length (filter (\<lambda>kv. toLowerCase (fst kv) = ''authorization'' \<and>
                          or_else (Some (split_first CHR '' '' (snd kv))) ''unknown'' = scheme)
                  (concat (map requestHeaders reqs)))) \<and>
   sorted_wrt (\<lambda>x y. snd x \<ge> snd y) (consistentAuthHeaders reqs) \<and>
   (\<exists>found. consistentCookies reqs = map fst found \<and>
      set found \<subseteq> set (snd (detectAuthPatterns reqs)) \<and>
      sorted_wrt (\<lambda>x y. snd x \<ge> snd y) found) \<and>
   length corpus10 = 10 \<and>
   map_of (snd (detectAuthPatterns corpus10)) ''session_id'' = Some 6 \<and>
   map_of (snd (detectAuthPatterns corpus10)) ''tracker'' = Some 4 \<and>
   ''session_id'' \<in> set (consistentCookies corpus10) \<and>
   ''tracker'' \<notin> set (consistentCookies corpus10) \<and>
   length auth_corpus10 = 10 \<and>
   consistentAuthHeaders auth_corpus10 =
     [(''X-CSRF-Token'', 10), (''Authorization: Bearer ...'', 6)]"
proof (intro conjI impI)
  show "name \<in> set (consistentCookies reqs) \<longleftrightarrow>
      of_nat (count_list (cookie_occurrences reqs) name) \<ge>
        max (1 :: rat) (of_nat (length reqs) / 2)"
    by (rule consistent_cookie_occurrences)
  show "name \<in> set (consistentCookies reqs) \<longleftrightarrow>
      (\<exists>count. (name, count) \<in> set (snd (detectAuthPatterns reqs)) \<and>
         of_nat count \<ge> max (1 :: rat) (of_nat (length reqs) / 2))"
    by (force simp: consistentCookies_def threshold_def)
  show "(label, n) \<in> set (consistentAuthHeaders reqs) \<longleftrightarrow>
      (label, n) \<in> set (fst (detectAuthPatterns reqs)) \<and>
         of_nat n \<ge> max (1 :: rat) (of_nat (length reqs) / 2)"
    by (auto simp: consistentAuthHeaders_def threshold_def)
  show "(label, n) \<in> set (consistentAuthHeaders reqs) \<longleftrightarrow>
      n = count_list (auth_occurrences reqs) label \<and>
      of_nat n \<ge> max (1 :: rat) (of_nat (length reqs) / 2)"
    by (rule consistent_label_occurrences)
  show "count_list (auth_occurrences reqs) key =
        length (filter (\<lambda>kv. fst kv = key) (concat (map requestHeaders reqs)))"
    if "is_auth_name key \<and> \<not> prefix ''Authorization: '' key"
    using that unfolding auth_occurrences_def by (intro name_occurrences) simp_all
  show "count_list (auth_occurrences reqs) (''Authorization: '' @ scheme @ '' ...'') =
        length (filter (\<lambda>kv. toLowerCase (fst kv) = ''authorization'' \<and>
                          or_else (Some (split_first CHR '' '' (snd kv))) ''unknown'' = scheme)
                  (concat (map requestHeaders reqs)))"
    if "\<not> is_auth_name (''Authorization: '' @ scheme @ '' ...'')"
    using that unfolding auth_occurrences_def by (rule scheme_occurrences)
  show "sorted_wrt (\<lambda>x y. snd x \<ge> snd y) (consistentAuthHeaders reqs)"
    unfolding consistentAuthHeaders_def by (rule sorted_desc_counts)
  show "\<exists>found. consistentCookies reqs = map fst found \<and>
      set found \<subseteq> set (snd (detectAuthPatterns reqs)) \<and>
      sorted_wrt (\<lambda>x y. snd x \<ge> snd y) found"
    unfolding consistentCookies_def
    by (intro exI conjI, rule refl) (auto simp: sorted_desc_counts)
  show "length corpus10 = 10"
    by (simp add: corpus10_def)
  show "map_of (snd (detectAuthPatterns corpus10)) ''session_id'' = Some 6"
    by code_simp
  show "map_of (snd (detectAuthPatterns corpus10)) ''tracker'' = Some 4"
    by code_simp
  show "''session_id'' \<in> set (consistentCookies corpus10)"
    by (simp add: corpus10_cookies)
  show "''tracker'' \<notin> set (consistentCookies corpus10)"
    by (simp add: corpus10_cookies)
  show "length auth_corpus10 = 10"
    by (simp add: auth_corpus10_def)
  show "consistentAuthHeaders auth_corpus10 =
     [(''X-CSRF-Token'', 10), (''Authorization: Bearer ...'', 6)]"
    by (rule auth_corpus10_headers)
qed

theorem consistent_iff_threshold_witness:
  "''theme'' \<in> set (consistentCookies corpus10) \<and>
   (\<exists>count. (''theme'', count) \<in> set (snd (detectAuthPatterns corpus10)) \<and>
      of_nat count \<ge> max (1 :: rat) (of_nat (length corpus10) / 2)) \<and>
   (''x-api-key'', 3) \<notin> set (consistentAuthHeaders corpus10) \<and>
   count_list (auth_occurrences auth_corpus10) ''X-CSRF-Token'' = 10 \<and>
   length (filter (\<lambda>kv. fst kv = ''X-CSRF-Token'') (concat (map requestHeaders auth_corpus10))) = 10 \<and>
   (''X-Api-Key'', 4) \<notin> set (consistentAuthHeaders auth_corpus10) \<and>
   count_list (auth_occurrences auth_corpus10) (''Authorization: '' @ ''Bearer'' @ '' ...'') = 6"
proof -
  have a: "''theme'' \<in> set (consistentCookies corpus10)"
    by (simp add: corpus10_cookies)
  have b: "(''x-api-key'', 3) \<notin> set (fst (detectAuthPatterns corpus10))"
    by code_simp
  from consistent_iff_threshold [of "''theme''" corpus10 "''x-api-key''" 3] a b
  have 1: "\<exists>count. (''theme'', count) \<in> set (snd (detectAuthPatterns corpus10)) \<and>
      of_nat count \<ge> max (1 :: rat) (of_nat (length corpus10) / 2)"
    and 2: "(''x-api-key'', 3) \<notin> set (consistentAuthHeaders corpus10)"
    by blast+
  have c: "(''X-CSRF-Token'', 10) \<in> set (consistentAuthHeaders auth_corpus10)"
    by (simp add: auth_corpus10_headers)
  have d: "is_auth_name ''X-CSRF-Token'' \<and> \<not> prefix ''Authorization: '' ''X-CSRF-Token''"
    by code_simp
  have e: "\<not> is_auth_name (''Authorization: '' @ ''Bearer'' @ '' ...'')"
    by code_simp
  have f: "length (filter (\<lambda>kv. toLowerCase (fst kv) = ''authorization'' \<and>
                          or_else (Some (split_first CHR '' '' (snd kv))) ''unknown'' = ''Bearer'')
                  (concat (map requestHeaders auth_corpus10))) = 6"
    by code_simp
  note inst = consistent_iff_threshold [of "''theme''" auth_corpus10 "''X-CSRF-Token''" 10
      "''X-CSRF-Token''" "''Bearer''"]
  from inst c have 3: "count_list (auth_occurrences auth_corpus10) ''X-CSRF-Token'' = 10"
    by simp
  from inst d have "count_list (auth_occurrences auth_corpus10) ''X-CSRF-Token'' =
      length (filter (\<lambda>kv. fst kv = ''X-CSRF-Token'') (concat (map requestHeaders auth_corpus10)))"
    by blast
  with 3 have 4: "length (filter (\<lambda>kv. fst kv = ''X-CSRF-Token'')
      (concat (map requestHeaders auth_corpus10))) = 10"
    by simp
  from inst e have "count_list (auth_occurrences auth_corpus10) (''Authorization: '' @ ''Bearer'' @ '' ...'') =
      length (filter (\<lambda>kv. toLowerCase (fst kv) = ''authorization'' \<and>
                          or_else (Some (split_first CHR '' '' (snd kv))) ''unknown'' = ''Bearer'')
                  (concat (map requestHeaders auth_corpus10)))"
    by blast
  with f have 5: "count_list (auth_occurrences auth_corpus10)
      (''Authorization: '' @ ''Bearer'' @ '' ...'') = 6"
    by simp
  have 6: "(''X-Api-Key'', 4) \<notin> set (consistentAuthHeaders auth_corpus10)"
    by (simp add: auth_corpus10_headers)
  from a 1 2 3 4 5 6 show ?thesis
    by blast
qed

section \<open>Properties of the capture store\<close>

lemma getDomain_unknown: "URL u = None \<Longrightarrow> getDomain URL u = ''unknown''"
  by (simp add: getDomain_def)

lemma storeEntry_bucket:
  "map_of (capturedByDomain (storeEntry URL e s)) (getDomain URL (url e)) =
     Some ((case map_of (capturedByDomain s) (getDomain URL (url e)) of
              None \<Rightarrow> [] | Some es \<Rightarrow> es) @ [e])"
  by (auto simp: storeEntry_def Let_def AList.map_of_map_entry split: option.splits)

lemma storeEntry_other:
  "d \<noteq> getDomain URL (url e) \<Longrightarrow>
     map_of (capturedByDomain (storeEntry URL e s)) d = map_of (capturedByDomain s) d"
  by (auto simp: storeEntry_def Let_def AList.map_of_map_entry map_add_def split: option.splits)

lemma storeEntry_keeps:
  "map_of (capturedByDomain s) d = Some es \<Longrightarrow>
     \<exists>es'. map_of (capturedByDomain (storeEntry URL e s)) d = Some (es @ es')"
  by (cases "d = getDomain URL (url e)") (simp_all add: storeEntry_bucket storeEntry_other)

lemma flush_keeps:
  "map_of (capturedByDomain s) d = Some es \<Longrightarrow>
     \<exists>es'. map_of (capturedByDomain (fold (\<lambda>(rid, e). storeEntry URL e) ps s)) d = Some (es @ es')"
proof (induction ps arbitrary: s es)
  case Nil
  then show ?case by simp
next
  case (Cons p ps)
  obtain rid e where p: "p = (rid, e)" by (cases p)
  from storeEntry_keeps [OF Cons.prems, of URL e]
  obtain es1 where "map_of (capturedByDomain (storeEntry URL e s)) d = Some (es @ es1)" ..
  from Cons.IH [OF this] p show ?case by auto
qed

lemma storeEntry_flags [simp]:
  "shuttingDown (storeEntry URL e s) = shuttingDown s"
  "written (storeEntry URL e s) = written s"
  "exited (storeEntry URL e s) = exited s"
  "pendingRequests (storeEntry URL e s) = pendingRequests s"
  "bodyFetches (storeEntry URL e s) = bodyFetches s"
  by (simp_all add: storeEntry_def Let_def)

lemma flush_flags [simp]:
  "shuttingDown (fold (\<lambda>(rid, e). storeEntry URL e) ps s) = shuttingDown s"
  "written (fold (\<lambda>(rid, e). storeEntry URL e) ps s) = written s"
  "exited (fold (\<lambda>(rid, e). storeEntry URL e) ps s) = exited s"
  "bodyFetches (fold (\<lambda>(rid, e). storeEntry URL e) ps s) = bodyFetches s"
  by (induction ps arbitrary: s; simp add: case_prod_unfold)+

lemma map_snd_enumerate_fun: "map (\<lambda>p. f (snd p)) (enumerate n xs) = map f xs"
  by (induction xs arbitrary: n) auto

lemma map_of_enumerate_files:
  "map_of cbd d = Some es \<Longrightarrow>
     \<exists>i. (i, (d, es)) \<in> set (enumerate n cbd)"
proof (induction cbd arbitrary: n)
  case Nil
  then show ?case by simp
next
  case (Cons a cbd)
  then show ?case
    by (cases a) (fastforce split: if_splits)
qed

lemma storeEntry_keys:
  "distinct (map fst (capturedByDomain s)) \<Longrightarrow>
     distinct (map fst (capturedByDomain (storeEntry URL e s)))"
  by (auto simp: storeEntry_def Let_def map_of_eq_None_iff intro!: AList.distinct_map_entry)

lemma storeEntry_total [simp]:
  "totalCaptured (storeEntry URL e s) = Suc (totalCaptured s)"
  by (simp add: storeEntry_def Let_def)

lemma flush_keys:
  "distinct (map fst (capturedByDomain s)) \<Longrightarrow>
     distinct (map fst (capturedByDomain (fold (\<lambda>(rid, e). storeEntry URL e) ps s)))"
  by (induction ps arbitrary: s) (auto simp: storeEntry_keys)

lemma flush_total:
  "totalCaptured (fold (\<lambda>(rid, e). storeEntry URL e) ps s) = totalCaptured s + length ps"
  by (induction ps arbitrary: s) auto

lemma shutdown_again:
  "shutdown cfg URL clock2 (shutdown cfg URL clock1 s) = shutdown cfg URL clock1 s"
  by (simp add: shutdown_def Let_def)

lemma shutdown_written:
  "\<not> shuttingDown s \<Longrightarrow> written s = [] \<Longrightarrow>
     map (\<lambda>f. domain (snd f)) (written (shutdown cfg URL clock s)) =
       map fst (capturedByDomain (shutdown cfg URL clock s))"
  apply (simp add: shutdown_def Let_def)
  apply (simp add: comp_def case_prod_unfold map_snd_enumerate_fun)
  done

lemma on_message_flags [simp]:
  "shuttingDown (on_message cfg URL now msg s) = shuttingDown s"
  "written (on_message cfg URL now msg s) = written s"
  "exited (on_message cfg URL now msg s) = exited s"
  by (simp_all add: on_message_def Let_def split: message.splits option.splits)

lemma on_body_flags [simp]:
  "shuttingDown (on_body URL call result s) = shuttingDown s"
  "written (on_body URL call result s) = written s"
  "exited (on_body URL call result s) = exited s"
  by (simp_all add: on_body_def Let_def split: option.splits)

lemma on_message_keys:
  "distinct (map fst (capturedByDomain s)) \<Longrightarrow>
     distinct (map fst (capturedByDomain (on_message cfg URL now msg s)))"
  by (simp add: on_message_def Let_def storeEntry_keys split: message.splits option.splits)

lemma on_body_keys:
  "distinct (map fst (capturedByDomain s)) \<Longrightarrow>
     distinct (map fst (capturedByDomain (on_body URL call result s)))"
  by (simp add: on_body_def Let_def storeEntry_keys split: option.splits)

lemma shutdown_inv:
  "store_inv s \<Longrightarrow> \<not> exited s \<Longrightarrow> store_inv (shutdown cfg URL clock s)"
proof -
  assume inv: "store_inv s" and live: "\<not> exited s"
  then have fresh: "\<not> shuttingDown s" "written s = []"
    and keys: "distinct (map fst (capturedByDomain s))"
    by (simp_all add: store_inv_def)
  have "distinct (map fst (capturedByDomain (shutdown cfg URL clock s)))"
    using fresh keys by (simp add: shutdown_def Let_def flush_keys)
  moreover have "exited (shutdown cfg URL clock s)" "shuttingDown (shutdown cfg URL clock s)"
    "pendingRequests (shutdown cfg URL clock s) = []"
    using fresh by (simp_all add: shutdown_def Let_def)
  ultimately show ?thesis
    using shutdown_written [OF fresh] by (simp add: store_inv_def)
qed

lemma step_inv: "store_inv s \<Longrightarrow> store_inv (step cfg URL ev s)"
proof (cases "exited s")
  case True
  then show "store_inv s \<Longrightarrow> store_inv (step cfg URL ev s)"
    by (simp add: step_def)
next
  case False
  assume inv: "store_inv s"
  show "store_inv (step cfg URL ev s)"
  proof (cases ev)
    case (WsMessage now msg)
    with inv False show ?thesis
      by (simp add: step_def store_inv_def on_message_keys)
  next
    case (BodyResolved call body)
    with inv False show ?thesis
      by (simp add: step_def store_inv_def on_body_keys)
  next
    case (BodyRejected call)
    with inv False show ?thesis
      by (simp add: step_def store_inv_def on_body_keys)
  next
    case (TimerFired clock)
    with inv False show ?thesis
      by (simp add: step_def shutdown_inv)
  next
    case (SIGINT clock)
    with inv False show ?thesis
      by (simp add: step_def shutdown_inv)
  next
    case (SIGTERM clock)
    with inv False show ?thesis
      by (simp add: step_def shutdown_inv)
  qed
qed

lemma run_inv: "store_inv s \<Longrightarrow> store_inv (run cfg URL evs s)"
  unfolding run_def by (induction evs arbitrary: s) (simp_all add: step_inv)

lemma initial_inv: "store_inv (initial pages)"
  by (simp add: store_inv_def initial_def)

lemma run_snoc: "run cfg URL (evs @ [ev]) s = step cfg URL ev (run cfg URL evs s)"
  by (simp add: run_def)

lemma trigger_exits:
  "store_inv s \<Longrightarrow> is_trigger t \<Longrightarrow> exited (step cfg URL t s)"
  by (cases t) (auto simp: is_trigger_def step_def store_inv_def shutdown_def Let_def)

lemma step_exited: "exited s \<Longrightarrow> step cfg URL ev s = s"
  by (simp add: step_def)

lemma shutdown_total:
  "\<not> shuttingDown s \<Longrightarrow>
     totalCaptured (shutdown cfg URL clock s) = totalCaptured s + length (pendingRequests s)"
  by (simp add: shutdown_def Let_def flush_total)

lemma map_fst_map_entry: "map fst (AList.map_entry k f xs) = map fst xs"
  by (induction xs) auto

lemma storeEntry_key_list:
  "map fst (capturedByDomain (storeEntry URL e s)) =
     set_add (getDomain URL (url e)) (map fst (capturedByDomain s))"
  by (auto simp: storeEntry_def Let_def set_add_def map_fst_map_entry map_of_eq_None_iff)

lemma stored_for_storeEntry:
  "stored_for (storeEntry URL e s) d =
     stored_for s d @ (if getDomain URL (url e) = d then [e] else [])"
  by (cases "d = getDomain URL (url e)")
     (auto simp: stored_for_def storeEntry_bucket storeEntry_other)

lemma flush_key_list:
  "map fst (capturedByDomain (fold (\<lambda>(rid, e). storeEntry URL e) ps s)) =
     fold set_add (map (\<lambda>p. getDomain URL (url (snd p))) ps) (map fst (capturedByDomain s))"
  by (induction ps arbitrary: s) (simp_all add: case_prod_unfold storeEntry_key_list)

lemma flush_stored:
  "stored_for (fold (\<lambda>(rid, e). storeEntry URL e) ps s) d =
     stored_for s d @ filter (\<lambda>e. getDomain URL (url e) = d) (map snd ps)"
  by (induction ps arbitrary: s) (simp_all add: case_prod_unfold stored_for_storeEntry)

lemma store_as_map:
  assumes "distinct (map fst (capturedByDomain s))"
  shows "capturedByDomain s = map (\<lambda>d. (d, stored_for s d)) (map fst (capturedByDomain s))"
proof -
  have "\<And>x. x \<in> set (capturedByDomain s) \<Longrightarrow> (fst x, stored_for s (fst x)) = x"
  proof -
    fix x assume "x \<in> set (capturedByDomain s)"
    then have "(fst x, snd x) \<in> set (capturedByDomain s)" by simp
    with assms have "map_of (capturedByDomain s) (fst x) = Some (snd x)"
      by (rule map_of_is_SomeI)
    then show "(fst x, stored_for s (fst x)) = x"
      by (simp add: stored_for_def)
  qed
  then have "map (\<lambda>x. (fst x, stored_for s (fst x))) (capturedByDomain s) = capturedByDomain s"
    by (simp add: map_idI)
  then show ?thesis
    by (simp add: comp_def)
qed

lemma enumerate_map_snd:
  "enumerate n (map f xs) = map (\<lambda>p. (fst p, f (snd p))) (enumerate n xs)"
  by (induction xs arbitrary: n) simp_all

lemma shutdown_files:
  assumes fresh: "\<not> shuttingDown s" "written s = []"
    and keys: "distinct (map fst (capturedByDomain s))"
  shows "written (shutdown cfg URL clock s) =
     map (\<lambda>(i, dmn).
            (path_join (path_join (CAPTURES_DIR cfg) dmn) (file_stamp (clock 0) @ ''.json''),
             \<lparr>capturedAt = clock (Suc i), duration = DURATION cfg, cdpPort = CDP_PORT cfg,
              domain = dmn, requests = stored_for s dmn @ pending_for URL s dmn\<rparr>))
       (enumerate 0
          (fold set_add (map (\<lambda>p. getDomain URL (url (snd p))) (pendingRequests s))
             (map fst (capturedByDomain s))))"
proof -
  let ?s' = "fold (\<lambda>(rid, e). storeEntry URL e) (pendingRequests s) (s\<lparr>shuttingDown := True\<rparr>)"
  have k: "map fst (capturedByDomain ?s') =
      fold set_add (map (\<lambda>p. getDomain URL (url (snd p))) (pendingRequests s))
        (map fst (capturedByDomain s))"
    by (simp add: flush_key_list)
  have "\<And>d. stored_for (s\<lparr>shuttingDown := True\<rparr>) d = stored_for s d"
    by (simp add: stored_for_def)
  then have st: "\<And>d. stored_for ?s' d = stored_for s d @ pending_for URL s d"
    by (simp add: flush_stored pending_for_def)
  have "distinct (map fst (capturedByDomain ?s'))"
    using keys by (simp add: flush_keys)
  from store_as_map [OF this]
  have cbd: "capturedByDomain ?s' =
      map (\<lambda>d. (d, stored_for s d @ pending_for URL s d))
        (fold set_add (map (\<lambda>p. getDomain URL (url (snd p))) (pendingRequests s))
           (map fst (capturedByDomain s)))"
    unfolding k st .
  have "written (shutdown cfg URL clock s) =
      map (\<lambda>(i, (dmn, reqs)).
             (path_join (path_join (CAPTURES_DIR cfg) dmn) (file_stamp (clock 0) @ ''.json''),
              \<lparr>capturedAt = clock (Suc i), duration = DURATION cfg, cdpPort = CDP_PORT cfg,
               domain = dmn, requests = reqs\<rparr>))
        (enumerate 0 (capturedByDomain ?s'))"
    using fresh by (simp add: shutdown_def Let_def)
  then show ?thesis
    unfolding cbd enumerate_map_snd by (simp add: case_prod_unfold comp_def)
qed


lemma count_map_entry:
  "map_of xs k \<noteq> None \<Longrightarrow>
     count_list (concat (map snd (AList.map_entry k (\<lambda>es. es @ [e]) xs))) x =
       count_list (concat (map snd xs)) x + (if x = e then 1 else 0)"
  by (induction xs) auto

lemma storeEntry_count:
  "count_list (concat (map snd (capturedByDomain (storeEntry URL e s)))) x =
     count_list (concat (map snd (capturedByDomain s))) x + (if x = e then 1 else 0)"
  by (simp add: storeEntry_def Let_def count_map_entry map_add_def)

lemma flush_count:
  "count_list (concat (map snd (capturedByDomain (fold (\<lambda>(rid, e). storeEntry URL e) ps s)))) x =
     count_list (concat (map snd (capturedByDomain s))) x + count_list (map snd ps) x"
  by (induction ps arbitrary: s) (simp_all add: case_prod_unfold storeEntry_count)

lemma shutdown_count:
  assumes "\<not> shuttingDown s" "written s = []"
  shows "count_list (concat (map (\<lambda>f. requests (snd f)) (written (shutdown cfg URL clock s)))) x =
     count_list (concat (map snd (capturedByDomain s))) x +
     count_list (map snd (pendingRequests s)) x"
proof -
  have "map (\<lambda>f. requests (snd f)) (written (shutdown cfg URL clock s)) =
      map snd (capturedByDomain
        (fold (\<lambda>(rid, e). storeEntry URL e) (pendingRequests s) (s\<lparr>shuttingDown := True\<rparr>)))"
    using assms
    apply (simp add: shutdown_def Let_def)
    apply (simp add: comp_def case_prod_unfold map_snd_enumerate_fun)
    done
  then show ?thesis
    by (simp add: flush_count)
qed

lemma trigger_cases:
  "is_trigger t \<Longrightarrow> \<exists>clock. t \<in> {TimerFired clock, SIGINT clock, SIGTERM clock}"
  by (cases t) (auto simp: is_trigger_def)

lemma trigger_shutdown:
  "t \<in> {TimerFired clock, SIGINT clock, SIGTERM clock} \<Longrightarrow> \<not> exited s \<Longrightarrow>
     step cfg URL t s = shutdown cfg URL clock s"
  by (auto simp: step_def)

text \<open>
  Claim C5: shutdown is idempotent. After any events and a first trigger (the duration
  timer, SIGINT or SIGTERM) the process has exited, and a second trigger changes nothing;
  the files written are one per domain of the store, each domain once, and the in-flight
  map is empty. The routine itself is guarded by its flag: \<open>shutdown\<close> after \<open>shutdown\<close>
  is \<open>shutdown\<close>, so the pending requests are flushed once, each counted once. When the
  first trigger finds the process running, the files written after both triggers are
  exactly those of one run of the write path with the clock of the first trigger: one
  file per domain, first the domains of the store and then the domains of the in-flight
  requests in the order of their first occurrence; the file of a domain is under the
  directory of that domain, named by the time stamp, and holds the entries stored for
  the domain followed by the in-flight entries of the domain. Every entry occurs in the
  files as often as in the store and the in-flight map together.
\<close>

theorem shutdown_idempotent:
  "is_trigger t1 \<and> is_trigger t2 \<longrightarrow>
     step cfg URL t2 (run cfg URL (evs @ [t1]) (initial pages)) =
       run cfg URL (evs @ [t1]) (initial pages) \<and>
     map (\<lambda>f. domain (snd f)) (written (run cfg URL (evs @ [t1, t2]) (initial pages))) =
       map fst (capturedByDomain (run cfg URL (evs @ [t1, t2]) (initial pages))) \<and>
     distinct (map (\<lambda>f. domain (snd f)) (written (run cfg URL (evs @ [t1, t2]) (initial pages)))) \<and>
     pendingRequests (run cfg URL (evs @ [t1, t2]) (initial pages)) = [] \<and>
     shutdown cfg URL clock2 (shutdown cfg URL clock1 s) = shutdown cfg URL clock1 s \<and>
     (\<not> shuttingDown s \<longrightarrow>
        totalCaptured (shutdown cfg URL clock2 (shutdown cfg URL clock1 s)) =
          totalCaptured s + length (pendingRequests s)) \<and>
     (\<not> exited (run cfg URL evs (initial pages)) \<longrightarrow>
        (\<exists>clock. t1 \<in> {TimerFired clock, SIGINT clock, SIGTERM clock} \<and>
           written (run cfg URL (evs @ [t1, t2]) (initial pages)) =
             map (\<lambda>(i, dmn).
                    (path_join (path_join (CAPTURES_DIR cfg) dmn)
                       (file_stamp (clock 0) @ ''.json''),
                     \<lparr>capturedAt = clock (Suc i), duration = DURATION cfg,
                      cdpPort = CDP_PORT cfg, domain = dmn,
                      requests = stored_for (run cfg URL evs (initial pages)) dmn @
                                 pending_for URL (run cfg URL evs (initial pages)) dmn\<rparr>))
               (enumerate 0
                  (fold set_add
                     (map (\<lambda>p. getDomain URL (url (snd p)))
                        (pendingRequests (run cfg URL evs (initial pages))))
                     (map fst (capturedByDomain (run cfg URL evs (initial pages))))))) \<and>
        count_list
          (concat (map (\<lambda>f. requests (snd f))
             (written (run cfg URL (evs @ [t1, t2]) (initial pages))))) e =
          count_list (concat (map snd (capturedByDomain (run cfg URL evs (initial pages))))) e +
          count_list (map snd (pendingRequests (run cfg URL evs (initial pages)))) e)"
proof (intro impI, elim conjE)
  assume t1: "is_trigger t1" and t2: "is_trigger t2"
  let ?s0 = "run cfg URL evs (initial pages)"
  let ?s1 = "run cfg URL (evs @ [t1]) (initial pages)"
  let ?s2 = "run cfg URL (evs @ [t1, t2]) (initial pages)"
  have inv0: "store_inv ?s0"
    by (rule run_inv [OF initial_inv])
  have ex1: "exited ?s1"
    unfolding run_snoc by (rule trigger_exits [OF inv0 t1])
  have same: "step cfg URL t2 ?s1 = ?s1"
    by (rule step_exited [OF ex1])
  have s2: "?s2 = ?s1"
    using same by (simp add: run_def)
  have inv1: "store_inv ?s1"
    by (rule run_inv [OF initial_inv])
  from inv1 ex1 have w: "map (\<lambda>f. domain (snd f)) (written ?s1) = map fst (capturedByDomain ?s1)"
    and d: "distinct (map fst (capturedByDomain ?s1))" and p: "pendingRequests ?s1 = []"
    by (simp_all add: store_inv_def)
  have old: "step cfg URL t2 ?s1 = ?s1 \<and>
     map (\<lambda>f. domain (snd f)) (written ?s2) = map fst (capturedByDomain ?s2) \<and>
     distinct (map (\<lambda>f. domain (snd f)) (written ?s2)) \<and>
     pendingRequests ?s2 = [] \<and>
     shutdown cfg URL clock2 (shutdown cfg URL clock1 s) = shutdown cfg URL clock1 s \<and>
     (\<not> shuttingDown s \<longrightarrow>
        totalCaptured (shutdown cfg URL clock2 (shutdown cfg URL clock1 s)) =
          totalCaptured s + length (pendingRequests s))"
    using same w d p shutdown_total [of s cfg URL clock1]
    by (auto simp only: s2 shutdown_again)
  have new: "(\<exists>clock. t1 \<in> {TimerFired clock, SIGINT clock, SIGTERM clock} \<and>
           written ?s2 =
             map (\<lambda>(i, dmn).
                    (path_join (path_join (CAPTURES_DIR cfg) dmn)
                       (file_stamp (clock 0) @ ''.json''),
                     \<lparr>capturedAt = clock (Suc i), duration = DURATION cfg,
                      cdpPort = CDP_PORT cfg, domain = dmn,
                      requests = stored_for ?s0 dmn @ pending_for URL ?s0 dmn\<rparr>))
               (enumerate 0
                  (fold set_add
                     (map (\<lambda>p. getDomain URL (url (snd p))) (pendingRequests ?s0))
                     (map fst (capturedByDomain ?s0))))) \<and>
        count_list (concat (map (\<lambda>f. requests (snd f)) (written ?s2))) e =
          count_list (concat (map snd (capturedByDomain ?s0))) e +
          count_list (map snd (pendingRequests ?s0)) e"
    if live: "\<not> exited ?s0"
  proof -
    from inv0 live have fresh: "\<not> shuttingDown ?s0" "written ?s0 = []"
      and keys: "distinct (map fst (capturedByDomain ?s0))"
      by (simp_all add: store_inv_def)
    from trigger_cases [OF t1] obtain clock
      where c: "t1 \<in> {TimerFired clock, SIGINT clock, SIGTERM clock}" ..
    have s1: "?s1 = shutdown cfg URL clock ?s0"
      unfolding run_snoc by (rule trigger_shutdown [OF c live])
    show ?thesis
      unfolding s2 s1
      using c shutdown_files [OF fresh keys, of cfg URL clock]
        shutdown_count [OF fresh, of cfg URL clock e]
      by blast
  qed
  from old new show "step cfg URL t2 ?s1 = ?s1 \<and>
     map (\<lambda>f. domain (snd f)) (written ?s2) = map fst (capturedByDomain ?s2) \<and>
     distinct (map (\<lambda>f. domain (snd f)) (written ?s2)) \<and>
     pendingRequests ?s2 = [] \<and>
     shutdown cfg URL clock2 (shutdown cfg URL clock1 s) = shutdown cfg URL clock1 s \<and>
     (\<not> shuttingDown s \<longrightarrow>
        totalCaptured (shutdown cfg URL clock2 (shutdown cfg URL clock1 s)) =
          totalCaptured s + length (pendingRequests s)) \<and>
     (\<not> exited ?s0 \<longrightarrow>
        (\<exists>clock. t1 \<in> {TimerFired clock, SIGINT clock, SIGTERM clock} \<and>
           written ?s2 =
             map (\<lambda>(i, dmn).
                    (path_join (path_join (CAPTURES_DIR cfg) dmn)
                       (file_stamp (clock 0) @ ''.json''),
                     \<lparr>capturedAt = clock (Suc i), duration = DURATION cfg,
                      cdpPort = CDP_PORT cfg, domain = dmn,
                      requests = stored_for ?s0 dmn @ pending_for URL ?s0 dmn\<rparr>))
               (enumerate 0
                  (fold set_add
                     (map (\<lambda>p. getDomain URL (url (snd p))) (pendingRequests ?s0))
                     (map fst (capturedByDomain ?s0))))) \<and>
        count_list (concat (map (\<lambda>f. requests (snd f)) (written ?s2))) e =
          count_list (concat (map snd (capturedByDomain ?s0))) e +
          count_list (map snd (pendingRequests ?s0)) e)"
    by blast
qed

theorem shutdown_idempotent_witness:
  "step cfg0 example_URL (SIGINT clock0)
     (run cfg0 example_URL
        ([WsMessage ''2026-11-03T09:59:00.000Z'' (RequestWillBeSent sent0),
          WsMessage ''2026-11-03T09:59:01.000Z''
            (RequestWillBeSent (sent0\<lparr>rs_requestId := ''1000.2'', rs_url := ''not a url''\<rparr>)),
          WsMessage ''2026-11-03T09:59:02.000Z''
            (LoadingFailed ''1000.1'' (Some ''net::ERR_ABORTED''))] @ [TimerFired clock0])
        (initial 1)) =
     run cfg0 example_URL
        ([WsMessage ''2026-11-03T09:59:00.000Z'' (RequestWillBeSent sent0),
          WsMessage ''2026-11-03T09:59:01.000Z''
            (RequestWillBeSent (sent0\<lparr>rs_requestId := ''1000.2'', rs_url := ''not a url''\<rparr>)),
          WsMessage ''2026-11-03T09:59:02.000Z''
            (LoadingFailed ''1000.1'' (Some ''net::ERR_ABORTED''))] @ [TimerFired clock0])
        (initial 1) \<and>
   written (run cfg0 example_URL
        ([WsMessage ''2026-11-03T09:59:00.000Z'' (RequestWillBeSent sent0),
          WsMessage ''2026-11-03T09:59:01.000Z''
            (RequestWillBeSent (sent0\<lparr>rs_requestId := ''1000.2'', rs_url := ''not a url''\<rparr>)),
          WsMessage ''2026-11-03T09:59:02.000Z''
            (LoadingFailed ''1000.1'' (Some ''net::ERR_ABORTED''))] @
         [TimerFired clock0, SIGINT clock0]) (initial 1)) =
     [(''/captures/example.com/2026-11-03T10-00-00.json'',
       \<lparr>capturedAt = ''2026-11-03T10:00:00.000Z'', duration = Some 300, cdpPort = Some 9222,
        domain = ''example.com'',
        requests =
          [\<lparr>timestamp = ''2026-11-03T09:59:00.000Z'', http_method = ''POST'',
            url = ''https://api.example.com/users/48291/orders/3'', requestHeaders = [],
            requestBody = Some ''hello'', resourceType = ''XHR'', responseStatus = Some 0,
            responseHeaders = [], responseBody = Some ''[failed: net::ERR_ABORTED]''\<rparr>]\<rparr>),
      (''/captures/unknown/2026-11-03T10-00-00.json'',
       \<lparr>capturedAt = ''2026-11-03T10:00:00.000Z'', duration = Some 300, cdpPort = Some 9222,
        domain = ''unknown'',
        requests =
          [\<lparr>timestamp = ''2026-11-03T09:59:01.000Z'', http_method = ''POST'',
            url = ''not a url'', requestHeaders = [], requestBody = Some ''hello'',
            resourceType = ''XHR'', responseStatus = None, responseHeaders = [],
            responseBody = None\<rparr>]\<rparr>)] \<and>
   totalCaptured (shutdown cfg0 example_URL clock0 (shutdown cfg0 example_URL clock0 (initial 1))) =
     totalCaptured (initial 1) + length (pendingRequests (initial 1))"
proof -
  let ?evs = "[WsMessage ''2026-11-03T09:59:00.000Z'' (RequestWillBeSent sent0),
          WsMessage ''2026-11-03T09:59:01.000Z''
            (RequestWillBeSent (sent0\<lparr>rs_requestId := ''1000.2'', rs_url := ''not a url''\<rparr>)),
          WsMessage ''2026-11-03T09:59:02.000Z''
            (LoadingFailed ''1000.1'' (Some ''net::ERR_ABORTED''))]"
  have t: "is_trigger (TimerFired clock0) \<and> is_trigger (SIGINT clock0)"
    by (simp add: is_trigger_def)
  have w: "written (run cfg0 example_URL (?evs @ [TimerFired clock0, SIGINT clock0]) (initial 1)) =
     [(''/captures/example.com/2026-11-03T10-00-00.json'',
       \<lparr>capturedAt = ''2026-11-03T10:00:00.000Z'', duration = Some 300, cdpPort = Some 9222,
        domain = ''example.com'',
        requests =
          [\<lparr>timestamp = ''2026-11-03T09:59:00.000Z'', http_method = ''POST'',
            url = ''https://api.example.com/users/48291/orders/3'', requestHeaders = [],
            requestBody = Some ''hello'', resourceType = ''XHR'', responseStatus = Some 0,
            responseHeaders = [], responseBody = Some ''[failed: net::ERR_ABORTED]''\<rparr>]\<rparr>),
      (''/captures/unknown/2026-11-03T10-00-00.json'',
       \<lparr>capturedAt = ''2026-11-03T10:00:00.000Z'', duration = Some 300, cdpPort = Some 9222,
        domain = ''unknown'',
        requests =
          [\<lparr>timestamp = ''2026-11-03T09:59:01.000Z'', http_method = ''POST'',
            url = ''not a url'', requestHeaders = [], requestBody = Some ''hello'',
            resourceType = ''XHR'', responseStatus = None, responseHeaders = [],
            responseBody = None\<rparr>]\<rparr>)]"
    by code_simp
  have l: "\<not> exited (run cfg0 example_URL ?evs (initial 1))"
    by code_simp
  have f: "\<not> shuttingDown (initial 1)"
    by (simp add: initial_def)
  from shutdown_idempotent [of "TimerFired clock0" "SIGINT clock0" cfg0 example_URL ?evs 1
      clock0 clock0 "initial 1"] t w l f
  show ?thesis
    by blast
qed

lemma on_message_keeps:
  "map_of (capturedByDomain s) d = Some es \<Longrightarrow>
     \<exists>es'. map_of (capturedByDomain (on_message cfg URL now msg s)) d = Some (es @ es')"
proof (cases msg)
  case (LoadingFailed rid errorText)
  assume b: "map_of (capturedByDomain s) d = Some es"
  show ?thesis
  proof (cases "map_of (pendingRequests s) rid")
    case None
    with b LoadingFailed show ?thesis by (simp add: on_message_def)
  next
    case (Some e)
    from b have "map_of (capturedByDomain (s\<lparr>pendingRequests := AList.delete rid (pendingRequests s)\<rparr>)) d
        = Some es"
      by simp
    from storeEntry_keeps [OF this] Some LoadingFailed show ?thesis
      by (simp add: on_message_def)
  qed
qed (simp_all add: on_message_def Let_def split: option.splits)

lemma on_body_keeps:
  "map_of (capturedByDomain s) d = Some es \<Longrightarrow>
     \<exists>es'. map_of (capturedByDomain (on_body URL call result s)) d = Some (es @ es')"
proof (cases "map_of (bodyFetches s) call")
  case None
  assume "map_of (capturedByDomain s) d = Some es"
  with None show ?thesis by (simp add: on_body_def)
next
  case (Some e)
  assume "map_of (capturedByDomain s) d = Some es"
  then have "map_of (capturedByDomain (s\<lparr>bodyFetches := AList.delete call (bodyFetches s)\<rparr>)) d
      = Some es"
    by simp
  from storeEntry_keeps [OF this] Some show ?thesis
    by (cases result) (simp_all add: on_body_def Let_def)
qed

lemma live_step_keeps:
  "map_of (capturedByDomain s) d = Some es \<Longrightarrow> \<not> is_trigger ev \<Longrightarrow>
     \<exists>es'. map_of (capturedByDomain (step cfg URL ev s)) d = Some (es @ es')"
  by (cases ev) (auto simp: step_def is_trigger_def on_message_keeps on_body_keeps)

lemma live_step_flags:
  "\<not> is_trigger ev \<Longrightarrow>
     exited (step cfg URL ev s) = exited s \<and> shuttingDown (step cfg URL ev s) = shuttingDown s"
  by (cases ev) (auto simp: step_def is_trigger_def)

lemma live_run_keeps:
  "map_of (capturedByDomain s) d = Some es \<Longrightarrow> list_all (\<lambda>ev. \<not> is_trigger ev) evs \<Longrightarrow>
     \<exists>es'. map_of (capturedByDomain (run cfg URL evs s)) d = Some (es @ es')"
proof (induction evs arbitrary: s es)
  case Nil
  then show ?case by (simp add: run_def)
next
  case (Cons ev evs)
  from Cons.prems have "\<not> is_trigger ev" and rest: "list_all (\<lambda>ev. \<not> is_trigger ev) evs"
    by simp_all
  from live_step_keeps [OF Cons.prems(1) this(1)]
  obtain es1 where "map_of (capturedByDomain (step cfg URL ev s)) d = Some (es @ es1)" ..
  from Cons.IH [OF this rest] show ?case
    by (auto simp: run_def)
qed

lemma live_run_flags:
  "list_all (\<lambda>ev. \<not> is_trigger ev) evs \<Longrightarrow>
     exited (run cfg URL evs s) = exited s \<and> shuttingDown (run cfg URL evs s) = shuttingDown s"
  by (induction evs arbitrary: s) (simp_all add: run_def live_step_flags)

lemma shutdown_writes_bucket:
  assumes "\<not> shuttingDown s" and "map_of (capturedByDomain s) d = Some es"
  shows "\<exists>i es'.
      (path_join (path_join (CAPTURES_DIR cfg) d) (file_stamp (clock 0) @ ''.json''),
       \<lparr>capturedAt = clock (Suc i), duration = DURATION cfg, cdpPort = CDP_PORT cfg,
        domain = d, requests = es @ es'\<rparr>) \<in> set (written (shutdown cfg URL clock s))"
proof -
  let ?s' = "fold (\<lambda>(rid, e). storeEntry URL e) (pendingRequests s) (s\<lparr>shuttingDown := True\<rparr>)"
  from assms(2) have "map_of (capturedByDomain (s\<lparr>shuttingDown := True\<rparr>)) d = Some es"
    by simp
  from flush_keeps [OF this] obtain es' where "map_of (capturedByDomain ?s') d = Some (es @ es')" ..
  from map_of_enumerate_files [OF this] obtain i
    where "(i, (d, es @ es')) \<in> set (enumerate 0 (capturedByDomain ?s'))" ..
  then have "(path_join (path_join (CAPTURES_DIR cfg) d) (file_stamp (clock 0) @ ''.json''),
       \<lparr>capturedAt = clock (Suc i), duration = DURATION cfg, cdpPort = CDP_PORT cfg,
        domain = d, requests = es @ es'\<rparr>) \<in> set (written (shutdown cfg URL clock s))"
    using assms(1) by (force simp: shutdown_def Let_def)
  then show ?thesis by blast
qed

lemma trigger_step:
  "is_trigger t \<Longrightarrow> \<not> exited s \<Longrightarrow> \<exists>clock. step cfg URL t s = shutdown cfg URL clock s"
  by (cases t) (auto simp: is_trigger_def step_def)

text \<open>
  Claim C10: for an entry whose URL the parser rejects, the noise and static-asset
  filters let the request pass, \<open>getDomain\<close> returns \<^verbatim>\<open>unknown\<close> instead of failing,
  \<open>storeEntry\<close> appends the entry to the bucket of the domain \<^verbatim>\<open>unknown\<close>, and when
  the capture is then shut down, after any further notifications, a session file is
  written under the directory \<^verbatim>\<open>unknown\<close> with the domain \<^verbatim>\<open>unknown\<close> and the entry
  among its requests.
\<close>

theorem unparsable_url_unknown:
  "URL (url e) = None \<longrightarrow>
     \<not> isNoiseDomain URL (url e) \<and> \<not> isStaticAsset URL (url e) \<and>
     getDomain URL (url e) = ''unknown'' \<and>
     (\<exists>es. map_of (capturedByDomain (storeEntry URL e s)) ''unknown'' = Some (es @ [e])) \<and>
     (\<not> exited s \<and> \<not> shuttingDown s \<and> list_all (\<lambda>ev. \<not> is_trigger ev) evs \<and> is_trigger t \<longrightarrow>
        (\<exists>f \<in> set (written (run cfg URL (evs @ [t]) (storeEntry URL e s))).
           (\<exists>stamp. fst f =
              path_join (path_join (CAPTURES_DIR cfg) ''unknown'') (stamp @ ''.json'')) \<and>
           domain (snd f) = ''unknown'' \<and> e \<in> set (requests (snd f))))"
proof (intro impI conjI)
  assume bad: "URL (url e) = None"
  then show "\<not> isNoiseDomain URL (url e)" by (simp add: isNoiseDomain_def)
  from bad show "\<not> isStaticAsset URL (url e)" by (simp add: isStaticAsset_def)
  from bad show dom: "getDomain URL (url e) = ''unknown''" by (rule getDomain_unknown)
  from storeEntry_bucket [of URL e s] dom
  obtain es where bucket: "map_of (capturedByDomain (storeEntry URL e s)) ''unknown'' = Some (es @ [e])"
    by auto
  then show "\<exists>es. map_of (capturedByDomain (storeEntry URL e s)) ''unknown'' = Some (es @ [e])" ..
  assume "\<not> exited s \<and> \<not> shuttingDown s \<and> list_all (\<lambda>ev. \<not> is_trigger ev) evs \<and> is_trigger t"
  then have live: "\<not> exited s" "\<not> shuttingDown s" and evs: "list_all (\<lambda>ev. \<not> is_trigger ev) evs"
    and t: "is_trigger t"
    by simp_all
  let ?s1 = "run cfg URL evs (storeEntry URL e s)"
  from live_run_keeps [OF bucket evs]
  obtain es1 where b1: "map_of (capturedByDomain ?s1) ''unknown'' = Some ((es @ [e]) @ es1)" ..
  from live_run_flags [OF evs, of cfg URL "storeEntry URL e s"] live
  have live1: "\<not> exited ?s1" "\<not> shuttingDown ?s1"
    by simp_all
  from trigger_step [OF t live1(1)] obtain clock
    where st: "step cfg URL t ?s1 = shutdown cfg URL clock ?s1" ..
  from shutdown_writes_bucket [OF live1(2) b1, of cfg clock URL] obtain i es2
    where "(path_join (path_join (CAPTURES_DIR cfg) ''unknown'') (file_stamp (clock 0) @ ''.json''),
       \<lparr>capturedAt = clock (Suc i), duration = DURATION cfg, cdpPort = CDP_PORT cfg,
        domain = ''unknown'', requests = ((es @ [e]) @ es1) @ es2\<rparr>)
        \<in> set (written (shutdown cfg URL clock ?s1))"
    by blast
  then show "\<exists>f \<in> set (written (run cfg URL (evs @ [t]) (storeEntry URL e s))).
           (\<exists>stamp. fst f =
              path_join (path_join (CAPTURES_DIR cfg) ''unknown'') (stamp @ ''.json'')) \<and>
           domain (snd f) = ''unknown'' \<and> e \<in> set (requests (snd f))"
    unfolding run_snoc st by force
qed

theorem unparsable_url_unknown_witness:
  "getDomain example_URL (url (response_of ''x''\<lparr>url := ''not a url''\<rparr>)) = ''unknown'' \<and>
   (\<exists>f \<in> set (written (run cfg0 example_URL ([] @ [SIGINT clock0])
               (storeEntry example_URL (response_of ''x''\<lparr>url := ''not a url''\<rparr>) (initial 1)))).
      (\<exists>stamp. fst f = path_join (path_join (CAPTURES_DIR cfg0) ''unknown'') (stamp @ ''.json'')) \<and>
      domain (snd f) = ''unknown'' \<and>
      response_of ''x''\<lparr>url := ''not a url''\<rparr> \<in> set (requests (snd f)))"
proof -
  have u: "example_URL (url (response_of ''x''\<lparr>url := ''not a url''\<rparr>)) = None"
    by code_simp
  have l: "\<not> exited (initial 1) \<and> \<not> shuttingDown (initial 1) \<and>
      list_all (\<lambda>ev. \<not> is_trigger ev) [] \<and> is_trigger (SIGINT clock0)"
    by (simp add: initial_def is_trigger_def)
  from unparsable_url_unknown [of example_URL "response_of ''x''\<lparr>url := ''not a url''\<rparr>"
      "initial 1" "[]" "SIGINT clock0" cfg0] u l
  show ?thesis
    by blast
qed

section \<open>Properties of the synthesizer's rendering\<close>

lemma join_append:
  "xs \<noteq> [] \<Longrightarrow> ys \<noteq> [] \<Longrightarrow> join sep (xs @ ys) = join sep xs @ sep @ join sep ys"
proof (induction sep xs rule: join.induct)
  case (2 sep x)
  then show ?case by (cases ys) simp_all
qed simp_all

lemma map_entry_all:
  "\<forall>p \<in> set xs. Q (snd p) \<Longrightarrow> (\<And>v. Q (f v)) \<Longrightarrow> \<forall>p \<in> set (AList.map_entry k f xs). Q (snd p)"
  by (induction xs) auto

lemma map_entry_append_absent:
  "map_of xs k = None \<Longrightarrow> AList.map_entry k f (xs @ ys) = xs @ AList.map_entry k f ys"
  by (induction xs) (auto split: if_splits)

lemma group_step_nonempty:
  assumes "\<forall>p \<in> set acc. ep_requests (snd p) \<noteq> []"
  shows "\<forall>p \<in> set (group_step URL req acc). ep_requests (snd p) \<noteq> []"
proof (cases "map_of acc (endpointKey URL (http_method req) (url req))")
  case None
  with assms show ?thesis
    by (simp add: group_step_def Let_def map_entry_append_absent)
next
  case (Some ep)
  have "\<forall>p \<in> set (AList.map_entry k
      (\<lambda>ep. ep\<lparr>ep_requests := ep_requests ep @ [req], queryParams := q ep\<rparr>) acc).
      ep_requests (snd p) \<noteq> []" for k q
    by (rule map_entry_all [where Q = "\<lambda>ep. ep_requests ep \<noteq> []", OF assms]) simp
  with Some show ?thesis
    by (simp add: group_step_def Let_def)
qed

lemma group_nonempty:
  "\<forall>p \<in> set acc. ep_requests (snd p) \<noteq> [] \<Longrightarrow>
     \<forall>p \<in> set (fold (group_step URL) reqs acc). ep_requests (snd p) \<noteq> []"
proof (induction reqs arbitrary: acc)
  case Nil
  then show ?case by simp
next
  case (Cons req reqs)
  from group_step_nonempty [OF Cons.prems]
  have "\<forall>p \<in> set (group_step URL req acc). ep_requests (snd p) \<noteq> []" .
  from Cons.IH [OF this] show ?case by simp
qed

lemma sortedEndpoints_nonempty:
  "ep \<in> set (sortedEndpoints URL reqs) \<Longrightarrow> ep_requests ep \<noteq> []"
  using group_nonempty [of "[]" URL reqs] by (auto simp: sortedEndpoints_def)

lemma representative_of_nonempty: "reqs \<noteq> [] \<Longrightarrow> representative_of reqs \<noteq> None"
  by (cases reqs) (auto simp: representative_of_def split: option.splits)

lemma endpoint_section_some:
  "ep_requests ep \<noteq> [] \<Longrightarrow> endpoint_section JSON_parse ep \<noteq> None"
  using representative_of_nonempty [of "ep_requests ep"]
  by (auto simp: endpoint_section_def Let_def split: option.splits)

lemma those_some: "\<forall>x \<in> set xs. f x \<noteq> None \<Longrightarrow> \<exists>ys. those (map f xs) = Some ys"
  by (induction xs) auto

lemma sections_some:
  "\<exists>secs. those (map (endpoint_section JSON_parse) (sortedEndpoints URL reqs)) = Some secs"
  by (rule those_some) (simp add: sortedEndpoints_nonempty endpoint_section_some)

lemma join_Cons: "r \<noteq> [] \<Longrightarrow> join sep (x # r) = x @ sep @ join sep r"
  by (cases r) simp_all

lemma join_mid:
  "h \<noteq> [] \<Longrightarrow> r \<noteq> [] \<Longrightarrow>
     join sep (h @ [a @ now @ b] @ r) @ e =
       (join sep h @ sep @ a) @ now @ (b @ sep @ join sep r @ e)"
  by (simp add: join_append join_Cons del: join.simps)

lemma document_split:
  "\<exists>pre post. \<forall>now. join newline (header_lines skillName dmn now cap @ rest) @ newline =
     pre @ now @ post"
proof -
  obtain h r a b where h: "h \<noteq> []" and r: "r \<noteq> []"
    and split: "\<And>now. header_lines skillName dmn now cap = h @ [a @ now @ b] @ r"
  proof
    show "take 6 (header_lines skillName dmn [] cap) \<noteq> []"
      by (simp add: header_lines_def)
    show "drop 7 (header_lines skillName dmn [] cap) \<noteq> []"
      by (simp add: header_lines_def)
    show "header_lines skillName dmn now cap =
        take 6 (header_lines skillName dmn [] cap) @
        [(''# '' @ dmn @ '' API (learned '') @ now @ '')''] @
        drop 7 (header_lines skillName dmn [] cap)" for now
      by (simp add: header_lines_def)
  qed
  have "join newline (header_lines skillName dmn now cap @ rest) @ newline =
      (join newline h @ newline @ a) @ now @ (b @ newline @ join newline (r @ rest) @ newline)"
    for now
    using join_mid [OF h, of "r @ rest" newline a now b newline] r
    by (simp add: split)
  then show ?thesis by blast
qed

lemma skillContent_split:
  assumes ne: "requests cap \<noteq> []"
  shows "\<exists>pre post. \<forall>nowISO.
        skillContent URL JSON_parse args nowISO cap =
          Inr (pre @ split_first CHR ''T'' nowISO @ post)"
proof -
  from sections_some obtain secs
    where secs: "those (map (endpoint_section JSON_parse) (sortedEndpoints URL (requests cap))) =
      Some secs" ..
  let ?dmn = "or_else (DOMAIN args) (domain cap)"
  let ?name = "or_else (SKILL_NAME args) (''api-'' @ domainPrefix ?dmn)"
  from document_split [of ?name ?dmn cap
      "auth_lines ?dmn cap @ [''## Endpoints'', []] @ concat secs @ fallback_lines ?name ?dmn cap"]
  obtain pre post where
    "\<forall>now. join newline (header_lines ?name ?dmn now cap @
        auth_lines ?dmn cap @ [''## Endpoints'', []] @ concat secs @
        fallback_lines ?name ?dmn cap) @ newline = pre @ now @ post"
    by blast
  with ne secs have "\<forall>nowISO. skillContent URL JSON_parse args nowISO cap =
      Inr (pre @ split_first CHR ''T'' nowISO @ post)"
    by (simp add: skillContent_def Let_def)
  then show "\<exists>pre post. \<forall>nowISO.
        skillContent URL JSON_parse args nowISO cap =
          Inr (pre @ split_first CHR ''T'' nowISO @ post)"
    by blast
qed

text \<open>
  Claim C3, as the code has it: the generated document is a function of the capture
  data, the command line and the calendar date of the run, which the title line carries
  (\<^verbatim>\<open>learned <date>\<close>). For a capture with at least one request the document is
  \<open>pre @ date @ post\<close>, where \<open>date\<close> is the clock's ISO time up to the \<^verbatim>\<open>T\<close> and
  neither \<open>pre\<close> nor \<open>post\<close> depends on the clock: two runs over the same capture on
  the same date give the same bytes, and nothing but the date differs otherwise.
\<close>

theorem skillContent_date_only:
  "requests cap \<noteq> [] \<longrightarrow>
     (\<exists>pre post. \<forall>nowISO.
        skillContent URL JSON_parse args nowISO cap =
          Inr (pre @ split_first CHR ''T'' nowISO @ post))"
  using skillContent_split by blast

theorem skillContent_date_only_witness:
  "\<exists>pre post. \<forall>nowISO.
     skillContent example_URL example_JSON cli0 nowISO capture0 =
       Inr (pre @ split_first CHR ''T'' nowISO @ post)"
proof -
  have "requests capture0 \<noteq> []"
    by (simp add: capture0_def)
  with skillContent_date_only [of capture0 example_URL example_JSON cli0] show ?thesis
    by blast
qed

text \<open>
  The claim as the spec words it fails: the same capture rendered on two days gives two
  different documents.
\<close>

theorem skillContent_pure_counterexample:
  "skillContent example_URL example_JSON cli0 ''2026-11-03T10:00:00.000Z'' capture0 \<noteq>
   skillContent example_URL example_JSON cli0 ''2026-11-04T10:00:00.000Z'' capture0"
proof -
  have "requests capture0 \<noteq> []"
    by (simp add: capture0_def)
  from skillContent_split [OF this, of example_URL example_JSON cli0] obtain pre post
    where split: "\<forall>nowISO. skillContent example_URL example_JSON cli0 nowISO capture0 =
      Inr (pre @ split_first CHR ''T'' nowISO @ post)"
    by blast
  have "split_first CHR ''T'' ''2026-11-03T10:00:00.000Z'' \<noteq>
      split_first CHR ''T'' ''2026-11-04T10:00:00.000Z''"
    by code_simp
  with split show ?thesis
    by simp
qed

section \<open>Bodies and the shutdown race\<close>

lemma url0_facts:
  "isNoiseDomain example_URL ''https://api.example.com/users/48291/orders/3'' = False"
  "isStaticAsset example_URL ''https://api.example.com/users/48291/orders/3'' = False"
  "getDomain example_URL ''https://api.example.com/users/48291/orders/3'' = ''example.com''"
  by code_simp+

lemma run_request_body:
  "b \<noteq> [] \<Longrightarrow>
   map (\<lambda>f. map requestBody (requests (snd f)))
     (written (run cfg0 example_URL
        [WsMessage ''2026-11-03T09:59:00.000Z'' (RequestWillBeSent (sent0\<lparr>rs_postData := Some b\<rparr>)),
         WsMessage ''2026-11-03T09:59:01.000Z'' (LoadingFailed ''1000.1'' (Some ''net::ERR_ABORTED'')),
         SIGINT clock0] (initial 1))) = [[Some b]]"
  by (simp add: run_def step_def initial_def on_message_def sent0_def cfg0_def or_else_def
      or_null_def truthy_def redactBody_def storeEntry_def shutdown_def Let_def url0_facts)

lemma show_nat_cap: "show_nat 10240 = ''10240''" "show_nat 10241 = ''10241''"
  by (simp_all add: digit_char_def)

text \<open>
  Claim C4 at a request body of 10241 characters, one more than the cap, with redaction
  off: the request handler stores \<open>redactBody (postData || null)\<close> and never calls
  \<open>truncateBody\<close>, so the session file holds the body whole, where \<open>truncateBody\<close>, as
  the response path applies it, cuts the same text to 10240 characters and the marker.
\<close>

theorem request_body_not_truncated:
  "MAX_BODY_SIZE = 10240 \<and> length big_body = 10241 \<and>
   map (\<lambda>f. map requestBody (requests (snd f)))
     (written (run cfg0 example_URL
        [WsMessage ''2026-11-03T09:59:00.000Z''
           (RequestWillBeSent (sent0\<lparr>rs_postData := Some big_body\<rparr>)),
         WsMessage ''2026-11-03T09:59:01.000Z'' (LoadingFailed ''1000.1'' (Some ''net::ERR_ABORTED'')),
         SIGINT clock0] (initial 1))) = [[Some big_body]] \<and>
   truncateBody (Some big_body) =
     Some (replicate 10240 CHR ''a'' @ ''\<newline>...[truncated at 10240 bytes, total 10241]'')"
proof (intro conjI)
  show "MAX_BODY_SIZE = 10240"
    by (simp add: MAX_BODY_SIZE_def)
  show "length big_body = 10241"
    by (simp add: big_body_def)
  have "big_body \<noteq> []"
    by (simp add: big_body_def)
  then show "map (\<lambda>f. map requestBody (requests (snd f)))
     (written (run cfg0 example_URL
        [WsMessage ''2026-11-03T09:59:00.000Z''
           (RequestWillBeSent (sent0\<lparr>rs_postData := Some big_body\<rparr>)),
         WsMessage ''2026-11-03T09:59:01.000Z'' (LoadingFailed ''1000.1'' (Some ''net::ERR_ABORTED'')),
         SIGINT clock0] (initial 1))) = [[Some big_body]]"
    by (rule run_request_body)
  show "truncateBody (Some big_body) =
     Some (replicate 10240 CHR ''a'' @ ''\<newline>...[truncated at 10240 bytes, total 10241]'')"
    by (simp add: truncateBody_def big_body_def MAX_BODY_SIZE_def show_nat_cap newline_def
        del: show_nat.simps)
qed

text \<open>
  Claim C2 at the notifications request-sent and loading-finished for one identifier,
  followed by SIGINT before the body fetch has settled: the request was tracked, the
  loading-finished handler removed it from the in-flight map and left its entry with the
  outstanding fetch (call 2), and the shutdown flushes the in-flight map only, then
  exits: no entry is stored and no file written. The same request is stored once when
  the shutdown comes before loading-finished or after the fetch has settled.
\<close>

theorem body_fetch_lost_at_shutdown:
  \<open>map fst (pendingRequests (run cfg0 example_URL
        [WsMessage ''2026-11-03T09:59:00.000Z'' (RequestWillBeSent sent0)] (initial 1))) =
     [''1000.1''] \<and>
   map fst (bodyFetches (run cfg0 example_URL
        [WsMessage ''2026-11-03T09:59:00.000Z'' (RequestWillBeSent sent0),
         WsMessage ''2026-11-03T09:59:01.000Z'' (LoadingFinished ''1000.1'')] (initial 1))) = [2] \<and>
   written (run cfg0 example_URL
        [WsMessage ''2026-11-03T09:59:00.000Z'' (RequestWillBeSent sent0),
         WsMessage ''2026-11-03T09:59:01.000Z'' (LoadingFinished ''1000.1''),
         SIGINT clock0] (initial 1)) = [] \<and>
   totalCaptured (run cfg0 example_URL
        [WsMessage ''2026-11-03T09:59:00.000Z'' (RequestWillBeSent sent0),
         WsMessage ''2026-11-03T09:59:01.000Z'' (LoadingFinished ''1000.1''),
         SIGINT clock0] (initial 1)) = 0 \<and>
   map (\<lambda>f. length (requests (snd f)))
     (written (run cfg0 example_URL
        [WsMessage ''2026-11-03T09:59:00.000Z'' (RequestWillBeSent sent0),
         SIGINT clock0] (initial 1))) = [1] \<and>
   map (\<lambda>f. length (requests (snd f)))
     (written (run cfg0 example_URL
        [WsMessage ''2026-11-03T09:59:00.000Z'' (RequestWillBeSent sent0),
         WsMessage ''2026-11-03T09:59:01.000Z'' (LoadingFinished ''1000.1''),
         BodyResolved 2 (Some ''{"ok":true}''),
         SIGINT clock0] (initial 1))) = [1]\<close>
  by code_simp

end
